theory Spec2Isabelle
  imports Complex_Main
begin

section \<open>The pixoo frame buffer, rasterizer and transmission controller\<close>

text \<open>
  A shallow embedding of \<^verbatim>\<open>src/pixoo/__init__.py\<close>. Python integers are \<open>int\<close>, the
  frame buffer (a Python list of integers) is an \<open>int list\<close>, an RGB colour and a coordinate
  are tuples, and the \<^verbatim>\<open>Pixoo\<close> object is a record that every method takes and returns.
  A method that can raise returns \<open>error + pixoo\<close>, with \<open>Inl\<close> for the exception.
  Python floats are binary64 values: a finite one is the rational number it stands for, and
  every float operation rounds its exact result to the nearest binary64 value, ties to
  even.
  The \<^verbatim>\<open>print\<close> calls guarded by \<^verbatim>\<open>self.debug\<close> write diagnostics only and are left out.
\<close>

subsection \<open>Colour helpers (module level)\<close>

type_synonym color = "int \<times> int \<times> int"
type_synonym location = "int \<times> int"

text \<open>\<^verbatim>\<open>clamp(value, minimum=0, maximum=255)\<close>; the defaults are passed explicitly.\<close>

definition clamp :: "int \<Rightarrow> int \<Rightarrow> int \<Rightarrow> int" where
  "clamp val minimum maximum =
     (if val > maximum then maximum
      else if val < minimum then minimum
      else val)"

definition clamp_color :: "color \<Rightarrow> color" where
  "clamp_color rgb =
     (case rgb of (r, g, b) \<Rightarrow> (clamp r 0 255, clamp g 0 255, clamp b 0 255))"

subsection \<open>Python numbers\<close>

datatype error = IndexError | ValueError | OverflowError | ZeroDivisionError | TransportFailure

text \<open>
  A float is finite, an infinity or not-a-number; the sign of a zero is not kept, since no
  operation below depends on it. A number is an \<^verbatim>\<open>int\<close> or a \<^verbatim>\<open>float\<close>.
\<close>

datatype pyfloat = Finite rat | PosInf | NegInf | NaN

datatype pynum = Integer int | Floating pyfloat

text \<open>The number of binary digits of a positive integer (Python's \<^verbatim>\<open>int.bit_length\<close>).\<close>

function bit_length :: "int \<Rightarrow> int" where
  "bit_length n = (if n \<le> 0 then 0 else 1 + bit_length (n div 2))"
  by pat_completeness auto
termination
  by (relation "measure nat") auto

declare bit_length.simps [simp del]

definition pow2 :: "int \<Rightarrow> rat" where
  "pow2 k = (if 0 \<le> k then 2 ^ nat k else 1 / 2 ^ nat (- k))"

text \<open>For \<open>x > 0\<close>, the exponent \<open>e\<close> with \<open>2\<^sup>e \<le> x < 2\<^sup>e\<^sup>+\<^sup>1\<close>.\<close>

definition ilog2 :: "rat \<Rightarrow> int" where
  "ilog2 x =
     (if 1 \<le> x then bit_length \<lfloor>x\<rfloor> - 1
      else - bit_length (\<lceil>1 / x\<rceil> - 1))"

definition round_half_even :: "rat \<Rightarrow> int" where
  "round_half_even q =
     (let f = \<lfloor>q\<rfloor>; r = q - of_int f
      in if r < 1 / 2 then f
         else if r > 1 / 2 then f + 1
         else if even f then f else f + 1)"

text \<open>
  Rounding to binary64: 53 significant bits, exponents from -1022 (below which the spacing
  stays at \<open>2\<^sup>-\<^sup>1\<^sup>0\<^sup>7\<^sup>4\<close>, the subnormal numbers), nearest value with ties to even. A result
  of magnitude \<open>2\<^sup>1\<^sup>0\<^sup>2\<^sup>4\<close> or more is an infinity.
\<close>

definition fl :: "rat \<Rightarrow> rat" where
  "fl x =
     (if x = 0 then 0
      else
        (let e = max (ilog2 \<bar>x\<bar>) (- 1022) - 52; q = pow2 e
         in of_int (round_half_even (x / q)) * q))"

definition float_result :: "rat \<Rightarrow> pyfloat" where
  "float_result x =
     (let r = fl x
      in if pow2 1024 \<le> r then PosInf else if r \<le> - pow2 1024 then NegInf else Finite r)"

text \<open>
  The conversion of an \<^verbatim>\<open>int\<close> operand to \<^verbatim>\<open>float\<close> and the true division \<^verbatim>\<open>a / b\<close> of
  two \<^verbatim>\<open>int\<close>s are correctly rounded and raise \<^verbatim>\<open>OverflowError\<close> where the result would
  not be finite.
\<close>

definition float_of_int :: "int \<Rightarrow> error + pyfloat" where
  "float_of_int k =
     (case float_result (of_int k) of Finite r \<Rightarrow> Inr (Finite r) | _ \<Rightarrow> Inl OverflowError)"

definition true_divide :: "int \<Rightarrow> int \<Rightarrow> error + pyfloat" where
  "true_divide a b =
     (if b = 0 then Inl ZeroDivisionError
      else (case float_result (of_int a / of_int b) of
              Finite r \<Rightarrow> Inr (Finite r) | _ \<Rightarrow> Inl OverflowError))"

fun float_mul :: "pyfloat \<Rightarrow> pyfloat \<Rightarrow> pyfloat" where
  "float_mul (Finite a) (Finite b) = float_result (a * b)"
| "float_mul NaN y = NaN"
| "float_mul x NaN = NaN"
| "float_mul PosInf (Finite b) = (if b = 0 then NaN else if 0 < b then PosInf else NegInf)"
| "float_mul NegInf (Finite b) = (if b = 0 then NaN else if 0 < b then NegInf else PosInf)"
| "float_mul (Finite a) PosInf = (if a = 0 then NaN else if 0 < a then PosInf else NegInf)"
| "float_mul (Finite a) NegInf = (if a = 0 then NaN else if 0 < a then NegInf else PosInf)"
| "float_mul PosInf PosInf = PosInf"
| "float_mul NegInf NegInf = PosInf"
| "float_mul PosInf NegInf = NegInf"
| "float_mul NegInf PosInf = NegInf"

fun float_add :: "pyfloat \<Rightarrow> pyfloat \<Rightarrow> pyfloat" where
  "float_add (Finite a) (Finite b) = float_result (a + b)"
| "float_add NaN y = NaN"
| "float_add x NaN = NaN"
| "float_add PosInf NegInf = NaN"
| "float_add NegInf PosInf = NaN"
| "float_add PosInf y = PosInf"
| "float_add NegInf y = NegInf"
| "float_add x PosInf = PosInf"
| "float_add x NegInf = NegInf"

text \<open>
  Python's built-in \<^verbatim>\<open>round\<close> with one argument: an \<^verbatim>\<open>int\<close> is returned as it is, a finite
  float goes to the nearest integer, ties to even, an infinity raises \<^verbatim>\<open>OverflowError\<close>
  and not-a-number \<^verbatim>\<open>ValueError\<close>.
\<close>

definition py_round :: "pynum \<Rightarrow> error + int" where
  "py_round v =
     (case v of
        Integer k \<Rightarrow> Inr k
      | Floating (Finite r) \<Rightarrow> Inr (round_half_even r)
      | Floating NaN \<Rightarrow> Inl ValueError
      | Floating _ \<Rightarrow> Inl OverflowError)"

subsection \<open>Interpolation helpers (module level)\<close>

text \<open>
  \<^verbatim>\<open>lerp\<close> is called with \<^verbatim>\<open>int\<close> end points. With an \<^verbatim>\<open>int\<close> interpolant the arithmetic
  is exact; with a float, \<^verbatim>\<open>interpolant * (end - start)\<close> converts the difference and
  multiplies, and \<^verbatim>\<open>start + ...\<close> converts the start and adds.
\<close>

definition lerp :: "int \<Rightarrow> int \<Rightarrow> pynum \<Rightarrow> error + pynum" where
  "lerp start stop interpolant =
     (case interpolant of
        Integer i \<Rightarrow> Inr (Integer (start + i * (stop - start)))
      | Floating f \<Rightarrow>
          (case float_of_int (stop - start) of Inl e \<Rightarrow> Inl e | Inr d \<Rightarrow>
          (case float_of_int start of Inl e \<Rightarrow> Inl e | Inr a \<Rightarrow>
             Inr (Floating (float_add a (float_mul f d))))))"

definition lerp_location :: "location \<Rightarrow> location \<Rightarrow> pynum \<Rightarrow> error + pynum \<times> pynum" where
  "lerp_location xy1 xy2 interpolant =
     (case lerp (fst xy1) (fst xy2) interpolant of Inl e \<Rightarrow> Inl e | Inr x \<Rightarrow>
     (case lerp (snd xy1) (snd xy2) interpolant of Inl e \<Rightarrow> Inl e | Inr y \<Rightarrow> Inr (x, y)))"

definition minimum_amount_of_steps :: "location \<Rightarrow> location \<Rightarrow> int" where
  "minimum_amount_of_steps xy1 xy2 =
     max \<bar>fst xy1 - fst xy2\<bar> \<bar>snd xy1 - snd xy2\<bar>"

definition round_location :: "pynum \<times> pynum \<Rightarrow> error + location" where
  "round_location xy =
     (case py_round (fst xy) of Inl e \<Rightarrow> Inl e | Inr x \<Rightarrow>
     (case py_round (snd xy) of Inl e \<Rightarrow> Inl e | Inr y \<Rightarrow> Inr (x, y)))"

subsection \<open>The session object\<close>

datatype pyval = PyInt int | PyStr string | PyBytes "int list"

text \<open>
  A command as \<^verbatim>\<open>send_command(command=..., **kwargs)\<close> receives it: its name and its
  keyword arguments in the order written.
\<close>

type_synonym command = "string \<times> (string \<times> pyval) list"

text \<open>
  The fields of \<^verbatim>\<open>Pixoo\<close>. \<open>size_px\<close> is \<^verbatim>\<open>self.size\<close> (renamed: \<open>size\<close> is a HOL
  constant). \<open>buffer\<close>, \<open>buffers_send\<close> and \<open>counter\<close> are the private attributes
  \<^verbatim>\<open>__buffer\<close>, \<^verbatim>\<open>__buffers_send\<close> and \<^verbatim>\<open>__counter\<close>. The last two fields are not
  attributes of the object: \<open>sent\<close> lists the commands the device command channel has
  executed for this session and \<open>displayed\<close> the frames handed to the simulator, oldest
  first, so that what a method sends is part of its result.
\<close>

record pixoo =
  size_px :: int
  pixel_count :: int
  debug :: bool
  simulated :: bool
  refresh_connection_automatically :: bool
  buffer :: "int list"
  buffers_send :: int
  counter :: int
  sent :: "command list"
  displayed :: "(int list \<times> int) list"

text \<open>The class attribute \<^verbatim>\<open>__refresh_counter_limit = 32\<close>, never reassigned.\<close>

definition refresh_counter_limit :: int where
  "refresh_counter_limit = 32"

subsection \<open>Frame buffer\<close>

text \<open>
  Python's list item assignment \<^verbatim>\<open>xs[i] = v\<close>: a negative index counts from the end, an
  index outside the list raises \<^verbatim>\<open>IndexError\<close>.
\<close>

definition set_item :: "int list \<Rightarrow> int \<Rightarrow> int \<Rightarrow> error + int list" where
  "set_item xs i v =
     (let n = int (length xs); j = (if i < 0 then n + i else i)
      in if 0 \<le> j \<and> j < n then Inr (xs[nat j := v]) else Inl IndexError)"

definition draw_pixel_at_index :: "int \<Rightarrow> color \<Rightarrow> pixoo \<Rightarrow> error + pixoo" where
  "draw_pixel_at_index index rgb s =
     (if index < 0 \<or> index \<ge> pixel_count s then Inr s
      else
        (case clamp_color rgb of (r, g, b) \<Rightarrow>
          (let i = index * 3 in
           case set_item (buffer s) i r of Inl e \<Rightarrow> Inl e | Inr b1 \<Rightarrow>
           (case set_item b1 (i + 1) g of Inl e \<Rightarrow> Inl e | Inr b2 \<Rightarrow>
           (case set_item b2 (i + 2) b of Inl e \<Rightarrow> Inl e | Inr b3 \<Rightarrow>
              Inr (s\<lparr>buffer := b3\<rparr>))))))"

definition draw_pixel :: "location \<Rightarrow> color \<Rightarrow> pixoo \<Rightarrow> error + pixoo" where
  "draw_pixel xy rgb s =
     (if fst xy < 0 \<or> fst xy \<ge> size_px s \<or> snd xy < 0 \<or> snd xy \<ge> size_px s then Inr s
      else
        (let index = fst xy + (snd xy * size_px s)
         in draw_pixel_at_index index rgb s))"

text \<open>
  \<^verbatim>\<open>fill\<close>: the buffer restarts empty and the loop over \<^verbatim>\<open>range(self.pixel_count)\<close>
  extends it by the clamped triple once per round.
\<close>

fun fill_loop :: "nat \<Rightarrow> int list \<Rightarrow> int list \<Rightarrow> int list" where
  "fill_loop 0 rgb buf = buf"
| "fill_loop (Suc n) rgb buf = fill_loop n rgb (buf @ rgb)"

definition fill :: "color \<Rightarrow> pixoo \<Rightarrow> pixoo" where
  "fill rgb s =
     (case clamp_color rgb of (r, g, b) \<Rightarrow>
        s\<lparr>buffer := fill_loop (nat (pixel_count s)) [r, g, b] []\<rparr>)"

definition clear :: "color \<Rightarrow> pixoo \<Rightarrow> pixoo" where
  "clear rgb s = fill rgb s"

subsection \<open>Rasterizer\<close>

text \<open>
  A \<^verbatim>\<open>for\<close> loop whose body may raise: the rounds run in order on the list of values
  and the first exception ends the loop.
\<close>

fun for_each :: "('a \<Rightarrow> pixoo \<Rightarrow> error + pixoo) \<Rightarrow> 'a list \<Rightarrow> pixoo \<Rightarrow> error + pixoo" where
  "for_each body [] s = Inr s"
| "for_each body (v # vs) s =
     (case body v s of Inl e \<Rightarrow> Inl e | Inr s' \<Rightarrow> for_each body vs s')"

text \<open>
  \<^verbatim>\<open>draw_filled_rectangle\<close>: \<^verbatim>\<open>range(a, b + 1)\<close> is the integer interval \<open>[a..b]\<close>, empty
  when \<open>b < a\<close>.
\<close>

definition draw_filled_rectangle :: "location \<Rightarrow> location \<Rightarrow> color \<Rightarrow> pixoo \<Rightarrow> error + pixoo" where
  "draw_filled_rectangle top_left_xy bottom_right_xy rgb s =
     for_each
       (\<lambda>y. for_each (\<lambda>x. draw_pixel (x, y) rgb) [fst top_left_xy .. fst bottom_right_xy])
       [snd top_left_xy .. snd bottom_right_xy] s"

text \<open>
  \<^verbatim>\<open>draw_line\<close>, first loop: the set \<^verbatim>\<open>line\<close> as a list without duplicates, \<^verbatim>\<open>line.add\<close>
  as \<open>List.insert\<close>. \<open>line_add\<close> is one round of the loop: the interpolant is the
  \<^verbatim>\<open>int\<close> 0 or the float \<^verbatim>\<open>step / amount_of_steps\<close>. \<^verbatim>\<open>range(amount_of_steps)\<close> is
  \<open>[0..amount_of_steps - 1]\<close>.
\<close>

definition line_add ::
  "location \<Rightarrow> location \<Rightarrow> int \<Rightarrow> int \<Rightarrow> location list \<Rightarrow> error + location list" where
  "line_add start_xy stop_xy amount_of_steps step line =
     (case (if amount_of_steps = 0 then Inr (Integer 0)
            else (case true_divide step amount_of_steps of
                    Inl e \<Rightarrow> Inl e | Inr f \<Rightarrow> Inr (Floating f))) of
        Inl e \<Rightarrow> Inl e
      | Inr interpolant \<Rightarrow>
          (case lerp_location start_xy stop_xy interpolant of Inl e \<Rightarrow> Inl e | Inr xy \<Rightarrow>
          (case round_location xy of Inl e \<Rightarrow> Inl e | Inr pixel \<Rightarrow>
             Inr (List.insert pixel line))))"

fun line_loop ::
  "location \<Rightarrow> location \<Rightarrow> int \<Rightarrow> int list \<Rightarrow> location list \<Rightarrow> error + location list" where
  "line_loop start_xy stop_xy amount_of_steps [] line = Inr line"
| "line_loop start_xy stop_xy amount_of_steps (step # steps) line =
     (case line_add start_xy stop_xy amount_of_steps step line of
        Inl e \<Rightarrow> Inl e
      | Inr line' \<Rightarrow> line_loop start_xy stop_xy amount_of_steps steps line')"

definition line_of :: "location \<Rightarrow> location \<Rightarrow> error + location list" where
  "line_of start_xy stop_xy =
     (let amount_of_steps = minimum_amount_of_steps start_xy stop_xy
      in line_loop start_xy stop_xy amount_of_steps [0..amount_of_steps - 1] [])"

text \<open>
  Second loop: Python iterates the set in an order it does not specify; the model takes
  the order of the list. Every round writes the same colour, and
  \<open>draw_pixels_order_irrelevant\<close> below shows that the order does not matter.
\<close>

definition draw_line :: "location \<Rightarrow> location \<Rightarrow> color \<Rightarrow> pixoo \<Rightarrow> error + pixoo" where
  "draw_line start_xy stop_xy rgb s =
     (case line_of start_xy stop_xy of
        Inl e \<Rightarrow> Inl e
      | Inr line \<Rightarrow> for_each (\<lambda>pixel. draw_pixel pixel rgb) line s)"

subsection \<open>Device command channel and simulator\<close>

text \<open>
  The device command channel is a parameter: given the commands it has executed so far
  and the next command, it tells whether it executes that one (\<open>True\<close>) or fails.
\<close>

type_synonym channel = "command list \<Rightarrow> command \<Rightarrow> bool"

text \<open>
  Modelled from the spec: \<^verbatim>\<open>PixooBaseApi.send_command\<close> (\<^verbatim>\<open>pixoo/api.py\<close> is not among the
  source files). It executes a named remote command with keyed parameters; a failure of
  the transport is propagated to the caller. The reply is not used by the methods below.
\<close>

definition send_command :: "channel \<Rightarrow> command \<Rightarrow> pixoo \<Rightarrow> error + pixoo" where
  "send_command chan cmd s =
     (if chan (sent s) cmd then Inr (s\<lparr>sent := sent s @ [cmd]\<rparr>) else Inl TransportFailure)"

text \<open>
  Modelled from the spec: \<^verbatim>\<open>Simulator.display\<close> (\<^verbatim>\<open>pixoo/simulator.py\<close> is not among the
  source files). It consumes a raw buffer and a frame id and returns nothing.
\<close>

definition simulator_display :: "int list \<Rightarrow> int \<Rightarrow> pixoo \<Rightarrow> pixoo" where
  "simulator_display buf frame_id s = s\<lparr>displayed := displayed s @ [(buf, frame_id)]\<rparr>"

subsection \<open>Transmission controller\<close>

definition reset_counter :: "channel \<Rightarrow> pixoo \<Rightarrow> error + pixoo" where
  "reset_counter chan s =
     (if simulated s then Inr s
      else send_command chan (''Draw/ResetHttpGifId'', []) s)"

text \<open>
  Python's \<^verbatim>\<open>bytearray\<close> of a list of integers raises \<^verbatim>\<open>ValueError\<close> unless every
  element is in \<^verbatim>\<open>range(256)\<close>. The base64 text of \<^verbatim>\<open>pic_data\<close> is represented by the
  bytes it encodes.
\<close>

definition bytearray :: "int list \<Rightarrow> error + int list" where
  "bytearray xs = (if list_all (\<lambda>v. 0 \<le> v \<and> v < 256) xs then Inr xs else Inl ValueError)"

definition send_buffer :: "channel \<Rightarrow> pixoo \<Rightarrow> error + pixoo" where
  "send_buffer chan s =
     (let s1 = s\<lparr>counter := counter s + 1\<rparr> in
      case (if refresh_connection_automatically s1 \<and> counter s1 \<ge> refresh_counter_limit
            then (case reset_counter chan s1 of
                    Inl e \<Rightarrow> Inl e
                  | Inr s2 \<Rightarrow> Inr (s2\<lparr>counter := 1\<rparr>))
            else Inr s1) of
        Inl e \<Rightarrow> Inl e
      | Inr s3 \<Rightarrow>
          if simulated s3 then
            (let s4 = simulator_display (buffer s3) (counter s3) s3
             in Inr (s4\<lparr>buffers_send := buffers_send s4 + 1\<rparr>))
          else
            (case bytearray (buffer s3) of
               Inl e \<Rightarrow> Inl e
             | Inr bytes \<Rightarrow>
                 (case send_command chan
                         (''Draw/SendHttpGif'',
                          [(''pic_num'', PyInt 1),
                           (''pic_width'', PyInt (size_px s3)),
                           (''pic_offset'', PyInt 0),
                           (''pic_id'', PyInt (counter s3)),
                           (''pic_speed'', PyInt 1000),
                           (''pic_data'', PyBytes bytes)]) s3 of
                    Inl e \<Rightarrow> Inl e
                  | Inr s4 \<Rightarrow> Inr (s4\<lparr>buffers_send := buffers_send s4 + 1\<rparr>))))"

definition push :: "channel \<Rightarrow> pixoo \<Rightarrow> error + pixoo" where
  "push chan s = send_buffer chan s"

text \<open>A caller pushing \<open>n\<close> times in a row; an exception ends the sequence.\<close>

fun pushes :: "channel \<Rightarrow> nat \<Rightarrow> pixoo \<Rightarrow> error + pixoo" where
  "pushes chan 0 s = Inr s"
| "pushes chan (Suc n) s =
     (case push chan s of Inl e \<Rightarrow> Inl e | Inr s' \<Rightarrow> pushes chan n s')"

subsection \<open>Pass-through device operations\<close>

text \<open>
  \<^verbatim>\<open>rgb_to_hex_color\<close>: the format \<^verbatim>\<open>0>2X\<close> writes the integer in upper-case hexadecimal,
  with its sign, and pads it on the left with \<^verbatim>\<open>0\<close> to two characters.
\<close>

definition hex_digit :: "nat \<Rightarrow> char" where
  "hex_digit d = ''0123456789ABCDEF'' ! d"

fun hex_upper :: "nat \<Rightarrow> string" where
  "hex_upper n =
     (if n < 16 then [hex_digit n] else hex_upper (n div 16) @ [hex_digit (n mod 16)])"

declare hex_upper.simps [simp del]

definition format_02X :: "int \<Rightarrow> string" where
  "format_02X v =
     (let body = (if v < 0 then ''-'' else '''') @ hex_upper (nat \<bar>v\<bar>)
      in replicate (2 - length body) (CHR ''0'') @ body)"

definition rgb_to_hex_color :: "color \<Rightarrow> string" where
  "rgb_to_hex_color rgb =
     (case rgb of (r, g, b) \<Rightarrow> ''#'' @ format_02X r @ format_02X g @ format_02X b)"

definition send_text ::
  "channel \<Rightarrow> string \<Rightarrow> location \<Rightarrow> color \<Rightarrow> int \<Rightarrow> int \<Rightarrow> int \<Rightarrow> int \<Rightarrow> int \<Rightarrow> pixoo
     \<Rightarrow> error + pixoo" where
  "send_text chan text_string xy color identifier font width movement_speed direction s =
     (if simulated s then Inr s
      else
        (let identifier' = clamp identifier 0 19
         in send_command chan
              (''Draw/SendText'',
               [(''text_id'', PyInt identifier'),
                (''x'', PyInt (fst xy)),
                (''y'', PyInt (snd xy)),
                (''dir'', PyInt direction),
                (''font'', PyInt font),
                (''text_width'', PyInt width),
                (''speed'', PyInt movement_speed),
                (''text_string'', PyStr text_string),
                (''color'', PyStr (rgb_to_hex_color color)),
                (''align'', PyInt 1)]) s))"

definition set_brightness :: "channel \<Rightarrow> int \<Rightarrow> pixoo \<Rightarrow> error + pixoo" where
  "set_brightness chan brightness s =
     (if simulated s then Inr s
      else
        (let brightness' = clamp brightness 0 100
         in send_command chan
              (''Channel/SetBrightness'', [(''brightness'', PyInt brightness')]) s))"

definition set_channel :: "channel \<Rightarrow> int \<Rightarrow> pixoo \<Rightarrow> error + pixoo" where
  "set_channel chan channel_index s =
     (if simulated s then Inr s
      else send_command chan (''Channel/SetIndex'', [(''select_index'', PyInt channel_index)]) s)"

definition set_clock :: "channel \<Rightarrow> int \<Rightarrow> pixoo \<Rightarrow> error + pixoo" where
  "set_clock chan clock_id s =
     (if simulated s then Inr s
      else send_command chan (''Channel/SetClockSelectId'', [(''clock_id'', PyInt clock_id)]) s)"

definition set_custom_page :: "channel \<Rightarrow> int \<Rightarrow> pixoo \<Rightarrow> error + pixoo" where
  "set_custom_page chan index s =
     send_command chan (''Channel/SetCustomPageIndex'', [(''custom_page_index'', PyInt index)]) s"

definition set_custom_channel :: "channel \<Rightarrow> int \<Rightarrow> pixoo \<Rightarrow> error + pixoo" where
  "set_custom_channel chan index s =
     (case set_custom_page chan index s of
        Inl e \<Rightarrow> Inl e
      | Inr s' \<Rightarrow> set_channel chan 3 s')"

definition set_face :: "channel \<Rightarrow> int \<Rightarrow> pixoo \<Rightarrow> error + pixoo" where
  "set_face chan face_id s = set_clock chan face_id s"

definition set_screen :: "channel \<Rightarrow> bool \<Rightarrow> pixoo \<Rightarrow> error + pixoo" where
  "set_screen chan on s =
     (if simulated s then Inr s
      else send_command chan
             (''Channel/OnOffScreen'', [(''on_off'', PyInt (if on then 1 else 0))]) s)"

definition set_screen_off :: "channel \<Rightarrow> pixoo \<Rightarrow> error + pixoo" where
  "set_screen_off chan s = set_screen chan False s"

definition set_screen_on :: "channel \<Rightarrow> pixoo \<Rightarrow> error + pixoo" where
  "set_screen_on chan s = set_screen chan True s"

definition set_visualizer :: "channel \<Rightarrow> int \<Rightarrow> pixoo \<Rightarrow> error + pixoo" where
  "set_visualizer chan equalizer_position s =
     (if simulated s then Inr s
      else send_command chan
             (''Channel/SetEqPosition'', [(''eq_position'', PyInt equalizer_position)]) s)"

subsection \<open>What the constructor establishes\<close>

text \<open>
  \<^verbatim>\<open>__init__\<close> asserts that the size is 16, 32 or 64, sets \<^verbatim>\<open>pixel_count\<close> to its square
  and fills the buffer. No method below reassigns \<^verbatim>\<open>size\<close> or \<^verbatim>\<open>pixel_count\<close>, and
  the drawing methods keep the length of the buffer and the range of its bytes.
\<close>

definition session_ok :: "pixoo \<Rightarrow> bool" where
  "session_ok s =
     ((size_px s = 16 \<or> size_px s = 32 \<or> size_px s = 64)
      \<and> pixel_count s = size_px s * size_px s
      \<and> int (length (buffer s)) = 3 * pixel_count s
      \<and> list_all (\<lambda>v. 0 \<le> v \<and> v < 256) (buffer s))"

text \<open>The colour stored for the pixel at a coordinate: the three bytes from \<open>(x + y * size) * 3\<close>.\<close>

definition pixel_at :: "pixoo \<Rightarrow> location \<Rightarrow> color" where
  "pixel_at s xy =
     (let i = nat ((fst xy + snd xy * size_px s) * 3)
      in (buffer s ! i, buffer s ! (i + 1), buffer s ! (i + 2)))"

text \<open>
  A session for the examples: the fields as the constructor sets them, then its \<^verbatim>\<open>fill\<close>;
  the counter starts at 1, nothing sent or displayed yet.
\<close>

definition new_session :: "int \<Rightarrow> bool \<Rightarrow> bool \<Rightarrow> color \<Rightarrow> pixoo" where
  "new_session sz auto sim rgb =
     fill rgb
       \<lparr>size_px = sz, pixel_count = sz * sz, debug = False, simulated = sim,
        refresh_connection_automatically = auto, buffer = [], buffers_send = 0,
        counter = 1, sent = [], displayed = []\<rparr>"

text \<open>
  For the examples of the transmission controller: a channel that executes every command,
  one that fails on every command, and a session whose counter stands one below the
  refresh limit, in simulated or in device mode.
\<close>

definition reliable_channel :: channel where
  "reliable_channel history cmd = True"

definition failing_channel :: channel where
  "failing_channel history cmd = False"

definition tripping_session :: "bool \<Rightarrow> pixoo" where
  "tripping_session sim = (new_session 16 True sim (0, 0, 0))\<lparr>counter := 31\<rparr>"

text \<open>
  The \<^verbatim>\<open>Draw/SendHttpGif\<close> command of a frame with the given width, picture id and bytes,
  for stating what \<^verbatim>\<open>push\<close> sends.
\<close>

definition gif_frame :: "int \<Rightarrow> int \<Rightarrow> int list \<Rightarrow> command" where
  "gif_frame width frame_id bytes =
     (''Draw/SendHttpGif'',
      [(''pic_num'', PyInt 1), (''pic_width'', PyInt width), (''pic_offset'', PyInt 0),
       (''pic_id'', PyInt frame_id), (''pic_speed'', PyInt 1000), (''pic_data'', PyBytes bytes)])"

text \<open>
  Two notions for stating what a drawing loop does: \<open>stored rgb j\<close> is channel \<open>j\<close> of the
  clamped colour, and \<open>covered s pts i\<close> says that byte \<open>i\<close> of the buffer belongs to a pixel
  that lies on the screen and occurs in \<open>pts\<close>.
\<close>

definition stored :: "color \<Rightarrow> nat \<Rightarrow> int" where
  "stored rgb j = (case clamp_color rgb of (r, g, b) \<Rightarrow> [r, g, b] ! j)"

definition covered :: "pixoo \<Rightarrow> location list \<Rightarrow> nat \<Rightarrow> bool" where
  "covered s pts i =
     list_ex (\<lambda>p. 0 \<le> fst p \<and> fst p < size_px s \<and> 0 \<le> snd p \<and> snd p < size_px s
                  \<and> int i div 3 = fst p + snd p * size_px s) pts"

section \<open>Properties of the writes\<close>

lemma set_item_in_range:
  "0 \<le> i \<Longrightarrow> i < int (length xs) \<Longrightarrow> set_item xs i v = Inr (xs[nat i := v])"
  by (simp add: set_item_def)

lemma clamp_max_min: "clamp v 0 255 = max 0 (min 255 v)"
  by (simp add: clamp_def)

lemma clamp_byte: "0 \<le> clamp v 0 255 \<and> clamp v 0 255 < 256"
  by (simp add: clamp_def)

lemma clamp_color_bytes:
  "clamp_color rgb = (r, g, b) \<Longrightarrow> 0 \<le> r \<and> r < 256 \<and> 0 \<le> g \<and> g < 256 \<and> 0 \<le> b \<and> b < 256"
  using clamp_byte by (auto simp: clamp_color_def split: prod.splits)

lemma fill_loop_concat: "fill_loop n rgb buf = buf @ concat (replicate n rgb)"
proof (induction n arbitrary: buf)
  case 0
  show ?case by simp
next
  case (Suc n)
  have "concat (replicate (Suc n) rgb) = rgb @ concat (replicate n rgb)" by simp
  with Suc show ?case by simp
qed

lemma draw_pixel_at_index_in_range:
  assumes "0 \<le> index" and "index < pixel_count s"
    and "int (length (buffer s)) = 3 * pixel_count s"
    and "clamp_color rgb = (r, g, b)"
  shows "draw_pixel_at_index index rgb s =
           Inr (s\<lparr>buffer := (buffer s)[nat (index * 3) := r, nat (index * 3 + 1) := g,
                                       nat (index * 3 + 2) := b]\<rparr>)"
  using assms by (simp add: draw_pixel_at_index_def set_item_in_range Let_def)

lemma index_in_range:
  assumes "session_ok s" "0 \<le> x" "x < size_px s" "0 \<le> y" "y < size_px s"
  shows "0 \<le> x + y * size_px s \<and> x + y * size_px s < pixel_count s"
proof -
  have sz: "0 < size_px s" using assms by simp
  have "y * size_px s \<le> (size_px s - 1) * size_px s"
    using assms sz by (intro mult_right_mono) simp_all
  then have "x + y * size_px s < size_px s * size_px s"
    using assms by (simp add: algebra_simps)
  moreover have "0 \<le> y * size_px s" using assms sz by simp
  ultimately show ?thesis using assms by (simp add: session_ok_def)
qed

lemma index_inj:
  assumes "0 < (n::int)" "0 \<le> x" "x < n" "0 \<le> x'" "x' < n" "x + y * n = x' + y' * n"
  shows "x = x' \<and> y = y'"
proof -
  have "x = (x + y * n) mod n" using assms(2,3) by simp
  also have "\<dots> = (x' + y' * n) mod n" by (simp only: assms(6))
  also have "\<dots> = x'" using assms(4,5) by simp
  finally have "x = x'" .
  then show ?thesis using assms by simp
qed

lemma nat_times3:
  "0 \<le> (k::int) \<Longrightarrow>
     nat (k * 3) = 3 * nat k \<and> nat (k * 3 + 1) = 3 * nat k + 1 \<and> nat (k * 3 + 2) = 3 * nat k + 2"
  by arith

lemma nth_write3:
  assumes "i < length xs"
  shows "(xs[3 * n := r, 3 * n + 1 := g, 3 * n + 2 := b]) ! i =
           (if i div 3 = n then [r, g, b] ! (i mod 3) else xs ! i)"
proof (cases "i div 3 = n")
  case False
  then have "i \<noteq> 3 * n" "i \<noteq> 3 * n + 1" "i \<noteq> 3 * n + 2" by auto
  with False show ?thesis by simp
next
  case True
  then have i: "i = 3 * n + i mod 3" by auto
  have "i mod 3 = 0 \<or> i mod 3 = 1 \<or> i mod 3 = 2" by arith
  then show ?thesis
  proof (elim disjE)
    assume m: "i mod 3 = 0"
    with i have "i = 3 * n" by simp
    with assms True m show ?thesis by simp
  next
    assume m: "i mod 3 = 1"
    with i have "i = 3 * n + 1" by simp
    with assms True m show ?thesis by simp
  next
    assume m: "i mod 3 = 2"
    with i have "i = 3 * n + 2" by simp
    with assms True m show ?thesis by simp
  qed
qed

lemma draw_pixel_effect:
  assumes ok: "session_ok s"
  shows "\<exists>s'. draw_pixel xy rgb s = Inr s' \<and> session_ok s' \<and> s' = s\<lparr>buffer := buffer s'\<rparr>
           \<and> length (buffer s') = length (buffer s)
           \<and> (\<forall>i < length (buffer s). buffer s' ! i =
                 (if 0 \<le> fst xy \<and> fst xy < size_px s \<and> 0 \<le> snd xy \<and> snd xy < size_px s
                     \<and> int i div 3 = fst xy + snd xy * size_px s
                  then stored rgb (i mod 3) else buffer s ! i))"
proof (cases "0 \<le> fst xy \<and> fst xy < size_px s \<and> 0 \<le> snd xy \<and> snd xy < size_px s")
  case False
  then have "draw_pixel xy rgb s = Inr s" by (auto simp: draw_pixel_def)
  with False ok show ?thesis by auto
next
  case True
  obtain r g b where c: "clamp_color rgb = (r, g, b)" by (cases "clamp_color rgb")
  let ?k = "fst xy + snd xy * size_px s"
  have k: "0 \<le> ?k" "?k < pixel_count s" using index_in_range [OF ok] True by auto
  have len: "int (length (buffer s)) = 3 * pixel_count s" using ok by (simp add: session_ok_def)
  let ?b = "(buffer s)[nat (?k * 3) := r, nat (?k * 3 + 1) := g, nat (?k * 3 + 2) := b]"
  have res: "draw_pixel xy rgb s = Inr (s\<lparr>buffer := ?b\<rparr>)"
    using True draw_pixel_at_index_in_range [OF k len c] by (simp add: draw_pixel_def Let_def)
  have bytes: "list_all (\<lambda>v. 0 \<le> v \<and> v < 256) ?b"
    using ok clamp_color_bytes [OF c]
    by (auto simp: session_ok_def list_all_iff dest!: set_update_subset_insert [THEN subsetD])
  have ok': "session_ok (s\<lparr>buffer := ?b\<rparr>)"
    using ok bytes by (simp add: session_ok_def)
  let ?n = "nat ?k"
  have upd: "?b = (buffer s)[3 * ?n := r, 3 * ?n + 1 := g, 3 * ?n + 2 := b]"
    using nat_times3 [OF k(1)] by simp
  have nth: "?b ! i = (if int i div 3 = ?k then stored rgb (i mod 3) else buffer s ! i)"
    if "i < length (buffer s)" for i
  proof -
    have "int i div 3 = ?k \<longleftrightarrow> i div 3 = ?n"
      using k by (metis int_nat_eq nat_int of_nat_numeral zdiv_int)
    then show ?thesis
      unfolding upd using nth_write3 [OF that] c by (simp add: stored_def)
  qed
  show ?thesis using res ok' nth True by auto
qed


lemma draw_pixels_effect:
  assumes "session_ok s"
  shows "\<exists>s'. for_each (\<lambda>p. draw_pixel p rgb) pts s = Inr s' \<and> session_ok s'
           \<and> s' = s\<lparr>buffer := buffer s'\<rparr>
           \<and> length (buffer s') = length (buffer s)
           \<and> (\<forall>i < length (buffer s). buffer s' ! i =
                 (if covered s pts i then stored rgb (i mod 3) else buffer s ! i))"
  using assms
proof (induction pts arbitrary: s)
  case Nil
  then show ?case by (simp add: covered_def)
next
  case (Cons p pts)
  from draw_pixel_effect [OF Cons.prems, of p rgb] obtain s1 where
    s1: "draw_pixel p rgb s = Inr s1" "session_ok s1" "s1 = s\<lparr>buffer := buffer s1\<rparr>"
      "length (buffer s1) = length (buffer s)"
      "\<forall>i < length (buffer s). buffer s1 ! i =
          (if covered s [p] i then stored rgb (i mod 3) else buffer s ! i)"
    by (auto simp: covered_def)
  from Cons.IH [OF s1(2)] obtain s2 where
    s2: "for_each (\<lambda>p. draw_pixel p rgb) pts s1 = Inr s2" "session_ok s2"
      "s2 = s1\<lparr>buffer := buffer s2\<rparr>" "length (buffer s2) = length (buffer s1)"
      "\<forall>i < length (buffer s1). buffer s2 ! i =
          (if covered s1 pts i then stored rgb (i mod 3) else buffer s1 ! i)"
    by blast
  have sz: "size_px s1 = size_px s" by (subst s1(3)) simp
  have cov: "covered s1 pts i = covered s pts i" for i by (simp add: covered_def sz)
  have split: "covered s (p # pts) i \<longleftrightarrow> covered s [p] i \<or> covered s pts i" for i
    by (auto simp: covered_def)
  have "for_each (\<lambda>p. draw_pixel p rgb) (p # pts) s = Inr s2" using s1(1) s2(1) by simp
  moreover have "s2 = s\<lparr>buffer := buffer s2\<rparr>" by (subst s2(3), subst s1(3)) simp
  moreover have "\<forall>i < length (buffer s). buffer s2 ! i =
      (if covered s (p # pts) i then stored rgb (i mod 3) else buffer s ! i)"
    using s1(4,5) s2(5) by (simp add: cov split)
  ultimately show ?case using s2(2,4) s1(4) by simp
qed

lemma covered_set: "set pts = set pts' \<Longrightarrow> covered s pts i = covered s pts' i"
  by (simp add: covered_def list_ex_iff)

lemma draw_pixels_order_irrelevant:
  assumes "session_ok s" and "set pts = set pts'"
  shows "for_each (\<lambda>p. draw_pixel p rgb) pts s = for_each (\<lambda>p. draw_pixel p rgb) pts' s"
proof -
  from draw_pixels_effect [OF assms(1), of rgb pts] obtain s1 where
    s1: "for_each (\<lambda>p. draw_pixel p rgb) pts s = Inr s1" "s1 = s\<lparr>buffer := buffer s1\<rparr>"
      "length (buffer s1) = length (buffer s)"
      "\<forall>i < length (buffer s). buffer s1 ! i =
          (if covered s pts i then stored rgb (i mod 3) else buffer s ! i)"
    by blast
  from draw_pixels_effect [OF assms(1), of rgb pts'] obtain s2 where
    s2: "for_each (\<lambda>p. draw_pixel p rgb) pts' s = Inr s2" "s2 = s\<lparr>buffer := buffer s2\<rparr>"
      "length (buffer s2) = length (buffer s)"
      "\<forall>i < length (buffer s). buffer s2 ! i =
          (if covered s pts' i then stored rgb (i mod 3) else buffer s ! i)"
    by blast
  have "buffer s1 = buffer s2"
    using s1(3,4) s2(3,4) covered_set [OF assms(2)] by (intro nth_equalityI) simp_all
  then have "s1 = s2" using s1(2) s2(2) by metis
  then show ?thesis using s1(1) s2(1) by simp
qed

lemma for_each_append:
  "for_each body (xs @ ys) s =
     (case for_each body xs s of Inl e \<Rightarrow> Inl e | Inr s' \<Rightarrow> for_each body ys s')"
  by (induction xs arbitrary: s) (auto split: sum.splits)

lemma for_each_rows:
  "for_each (\<lambda>y. for_each (\<lambda>x. body (x, y)) xs) ys s =
     for_each body (concat (map (\<lambda>y. map (\<lambda>x. (x, y)) xs) ys)) s"
proof (induction ys arbitrary: s)
  case Nil
  show ?case by simp
next
  case (Cons y ys)
  have row: "for_each (\<lambda>x. body (x, y)) xs t = for_each body (map (\<lambda>x. (x, y)) xs) t" for t
    by (induction xs arbitrary: t) (auto split: sum.splits)
  show ?case by (simp add: for_each_append row Cons.IH split: sum.splits)
qed

lemma pixel_at_covered:
  assumes ok: "session_ok s" and len: "length (buffer s') = length (buffer s)"
    and sz: "size_px s' = size_px s"
    and nth: "\<forall>i < length (buffer s). buffer s' ! i =
                 (if covered s pts i then stored rgb (i mod 3) else buffer s ! i)"
    and xy: "0 \<le> x" "x < size_px s" "0 \<le> y" "y < size_px s"
  shows "pixel_at s' (x, y) = (if (x, y) \<in> set pts then clamp_color rgb else pixel_at s (x, y))"
proof -
  let ?k = "x + y * size_px s"
  let ?n = "nat ?k"
  have k: "0 \<le> ?k" "?k < pixel_count s" using index_in_range [OF ok xy] by auto
  have l: "int (length (buffer s)) = 3 * pixel_count s" using ok by (simp add: session_ok_def)
  have n3: "nat (?k * 3) = 3 * ?n" using nat_times3 [OF k(1)] by simp
  have inb: "3 * ?n + j < length (buffer s)" if "j < 3" for j
    using k l that by linarith
  have dv: "int (3 * ?n + j) div 3 = ?k" "(3 * ?n + j) mod 3 = j" if "j < 3" for j
    using k that by auto
  have pos: "0 < size_px s" using xy by simp
  have cov: "covered s pts (3 * ?n + j) \<longleftrightarrow> (x, y) \<in> set pts" if j3: "j < 3" for j
  proof
    assume "covered s pts (3 * ?n + j)"
    then obtain p where p0: "p \<in> set pts" "0 \<le> fst p" "fst p < size_px s"
        "int (3 * ?n + j) div 3 = fst p + snd p * size_px s"
      unfolding covered_def list_ex_iff by blast
    have p: "p \<in> set pts" "0 \<le> fst p" "fst p < size_px s" "?k = fst p + snd p * size_px s"
      using p0 dv(1) [OF j3] by (simp_all only:)
    from index_inj [OF pos xy(1,2) p(2,3) p(4)] have "p = (x, y)" by (cases p) simp
    with p(1) show "(x, y) \<in> set pts" by simp
  next
    assume "(x, y) \<in> set pts"
    then show "covered s pts (3 * ?n + j)"
      unfolding covered_def list_ex_iff using xy dv(1) [OF j3]
      by (intro bexI [of _ "(x, y)"]) (simp_all only: fst_conv snd_conv simp_thms)
  qed
  have b: "buffer s' ! (3 * ?n + j) =
      (if (x, y) \<in> set pts then stored rgb j else buffer s ! (3 * ?n + j))" if "j < 3" for j
    using nth inb [OF that] cov [OF that] dv(2) [OF that] by simp
  obtain r g bl where c: "clamp_color rgb = (r, g, bl)" by (cases "clamp_color rgb")
  have "pixel_at s' (x, y) = (buffer s' ! (3 * ?n + 0), buffer s' ! (3 * ?n + 1), buffer s' ! (3 * ?n + 2))"
    unfolding pixel_at_def Let_def fst_conv snd_conv sz n3 by simp
  also have "\<dots> = (if (x, y) \<in> set pts then clamp_color rgb
                   else (buffer s ! (3 * ?n + 0), buffer s ! (3 * ?n + 1), buffer s ! (3 * ?n + 2)))"
    using b [of 0] b [of 1] b [of 2] c by (simp add: stored_def)
  also have "\<dots> = (if (x, y) \<in> set pts then clamp_color rgb else pixel_at s (x, y))"
    unfolding pixel_at_def Let_def fst_conv snd_conv n3 by simp
  finally show ?thesis .
qed

lemma fill_fields [simp]:
  "size_px (fill rgb s) = size_px s" "pixel_count (fill rgb s) = pixel_count s"
  "simulated (fill rgb s) = simulated s" "counter (fill rgb s) = counter s"
  "refresh_connection_automatically (fill rgb s) = refresh_connection_automatically s"
  "sent (fill rgb s) = sent s" "displayed (fill rgb s) = displayed s"
  "buffers_send (fill rgb s) = buffers_send s"
  by (simp_all add: fill_def split: prod.splits)

lemma fill_buffer:
  "buffer (fill rgb s) =
     concat (replicate (nat (pixel_count s))
       [clamp (fst rgb) 0 255, clamp (fst (snd rgb)) 0 255, clamp (snd (snd rgb)) 0 255])"
  by (cases rgb) (simp add: fill_def clamp_color_def fill_loop_concat)

lemma length_concat_replicate3: "length (concat (replicate n [a, b, c])) = 3 * n"
  by (induction n) simp_all

lemma fill_ok:
  assumes "size_px s = 16 \<or> size_px s = 32 \<or> size_px s = 64"
    and "pixel_count s = size_px s * size_px s"
  shows "session_ok (fill rgb s)"
proof -
  have "0 \<le> pixel_count s" using assms by auto
  then have "int (length (buffer (fill rgb s))) = 3 * pixel_count s"
    by (simp add: fill_buffer length_concat_replicate3)
  moreover have "list_all (\<lambda>v. 0 \<le> v \<and> v < 256) (buffer (fill rgb s))"
    using clamp_byte by (auto simp: fill_buffer list_all_iff)
  ultimately show ?thesis using assms by (simp add: session_ok_def)
qed

lemma new_session_fields [simp]:
  "size_px (new_session sz auto sim rgb) = sz" "pixel_count (new_session sz auto sim rgb) = sz * sz"
  "simulated (new_session sz auto sim rgb) = sim" "counter (new_session sz auto sim rgb) = 1"
  "refresh_connection_automatically (new_session sz auto sim rgb) = auto"
  "sent (new_session sz auto sim rgb) = []" "displayed (new_session sz auto sim rgb) = []"
  "buffers_send (new_session sz auto sim rgb) = 0"
  by (simp_all add: new_session_def)

lemma new_session_ok:
  "sz = 16 \<or> sz = 32 \<or> sz = 64 \<Longrightarrow> session_ok (new_session sz auto sim rgb)"
  unfolding new_session_def by (rule fill_ok) simp_all

section \<open>Frame buffer claims\<close>

text \<open>
  Claim C5. For a session whose side is 16, 32 or 64 (and whose pixel count is its square),
  \<^verbatim>\<open>fill\<close> with any colour triple replaces the buffer by side * side consecutive copies of
  the triple clamped componentwise to 0..255, so the buffer has exactly 3 * side * side
  bytes; nothing else of the session changes. \<open>fill\<close> has no failing branch: the colour is
  clamped, never rejected.
\<close>

theorem fill_repeats_clamped_color:
  assumes "size_px s = 16 \<or> size_px s = 32 \<or> size_px s = 64"
    and "pixel_count s = size_px s * size_px s"
  shows "fill (r, g, b) s =
           s\<lparr>buffer := concat (replicate (nat (size_px s * size_px s))
                           [max 0 (min 255 r), max 0 (min 255 g), max 0 (min 255 b)])\<rparr>
         \<and> int (length (buffer (fill (r, g, b) s))) = 3 * size_px s * size_px s"
proof -
  have "0 \<le> size_px s * size_px s" by simp
  then show ?thesis
    using assms(2)
    by (simp add: fill_def clamp_color_def fill_loop_concat clamp_max_min
        length_concat_replicate3)
qed

theorem fill_repeats_clamped_color_witness:
  "fill (- 5, 300, 128) (new_session 16 True True (7, 7, 7)) =
     (new_session 16 True True (7, 7, 7))\<lparr>buffer := concat (replicate 256 [0, 255, 128])\<rparr>
   \<and> length (buffer (fill (- 5, 300, 128) (new_session 16 True True (7, 7, 7)))) = 768"
  using fill_repeats_clamped_color [of "new_session 16 True True (7, 7, 7)" "- 5" 300 128]
  by (simp add: length_concat_replicate3)


text \<open>
  Claim C6. Whatever the buffer holds and whatever the colour, \<^verbatim>\<open>draw_pixel\<close> at a
  coordinate with \<open>x < 0\<close>, \<open>x \<ge> side\<close>, \<open>y < 0\<close> or \<open>y \<ge> side\<close>, and
  \<^verbatim>\<open>draw_pixel_at_index\<close> at an index outside 0 .. side * side - 1, return normally and
  leave the session, hence every byte of the buffer, as it was.
\<close>

theorem out_of_range_write_is_noop:
  "(x < 0 \<or> x \<ge> size_px s \<or> y < 0 \<or> y \<ge> size_px s \<longrightarrow> draw_pixel (x, y) rgb s = Inr s)
   \<and> (pixel_count s = size_px s * size_px s \<and> (i < 0 \<or> i > size_px s * size_px s - 1)
        \<longrightarrow> draw_pixel_at_index i rgb s = Inr s)"
  by (auto simp: draw_pixel_def draw_pixel_at_index_def)

theorem out_of_range_write_is_noop_witness:
  "draw_pixel (16, 3) (1, 2, 3) (new_session 16 True True (7, 7, 7)) =
     Inr (new_session 16 True True (7, 7, 7))
   \<and> draw_pixel_at_index 256 (1, 2, 3) (new_session 16 True True (7, 7, 7)) =
     Inr (new_session 16 True True (7, 7, 7))"
  using out_of_range_write_is_noop
    [of 16 "new_session 16 True True (7, 7, 7)" 3 "(1, 2, 3)" 256]
  by simp

text \<open>
  Claim C7. At a coordinate on the screen, \<^verbatim>\<open>draw_pixel\<close> stores the componentwise clamp
  of the colour to 0..255; in particular the colour (-5, 300, 128) is stored as
  (0, 255, 128).
\<close>

theorem write_pixel_stores_clamped_color:
  assumes "session_ok s" and "0 \<le> x" and "x < size_px s" and "0 \<le> y" and "y < size_px s"
  shows "(\<exists>s'. draw_pixel (x, y) (r, g, b) s = Inr s'
            \<and> pixel_at s' (x, y) = (max 0 (min 255 r), max 0 (min 255 g), max 0 (min 255 b)))
         \<and> (\<exists>s'. draw_pixel (x, y) (- 5, 300, 128) s = Inr s'
            \<and> pixel_at s' (x, y) = (0, 255, 128))"
proof -
  have one: "\<exists>s'. draw_pixel (x, y) rgb s = Inr s' \<and> pixel_at s' (x, y) = clamp_color rgb" for rgb
  proof -
    from draw_pixels_effect [OF assms(1), of rgb "[(x, y)]"] obtain s' where
      s': "draw_pixel (x, y) rgb s = Inr s'" "s' = s\<lparr>buffer := buffer s'\<rparr>"
        "length (buffer s') = length (buffer s)"
        "\<forall>i < length (buffer s). buffer s' ! i =
            (if covered s [(x, y)] i then stored rgb (i mod 3) else buffer s ! i)"
      by (auto split: sum.splits)
    have sz: "size_px s' = size_px s" by (subst s'(2)) simp
    from pixel_at_covered [OF assms(1) s'(3) sz s'(4) assms(2-5)] s'(1) show ?thesis by simp
  qed
  have "clamp_color (r, g, b) = (max 0 (min 255 r), max 0 (min 255 g), max 0 (min 255 b))"
    by (simp add: clamp_color_def clamp_max_min)
  moreover have "clamp_color (- 5, 300, 128) = (0, 255, 128)"
    by (simp add: clamp_color_def clamp_def)
  ultimately show ?thesis using one [of "(r, g, b)"] one [of "(- 5, 300, 128)"] by simp
qed

theorem write_pixel_stores_clamped_color_witness:
  "session_ok (new_session 16 True True (7, 7, 7))
   \<and> (\<exists>s'. draw_pixel (3, 2) (256, - 1, 40) (new_session 16 True True (7, 7, 7)) = Inr s'
          \<and> pixel_at s' (3, 2) = (255, 0, 40))
   \<and> (\<exists>s'. draw_pixel (3, 2) (- 5, 300, 128) (new_session 16 True True (7, 7, 7)) = Inr s'
          \<and> pixel_at s' (3, 2) = (0, 255, 128))"
proof -
  have ok: "session_ok (new_session 16 True True (7, 7, 7))" by (simp add: new_session_ok)
  show ?thesis
    using ok write_pixel_stores_clamped_color [OF ok, of 3 2 256 "- 1" 40] by simp
qed

text \<open>
  Claim C8. At a coordinate with \<open>0 \<le> x, y \<le> side - 1\<close>, for every colour and every prior
  state, \<^verbatim>\<open>draw_pixel (x, y)\<close> gives exactly the result of \<^verbatim>\<open>draw_pixel_at_index\<close> at
  \<open>x + y * side\<close>; on a well-formed session both return normally.
\<close>

theorem write_pixel_matches_index_write:
  assumes "0 \<le> x" and "x \<le> size_px s - 1" and "0 \<le> y" and "y \<le> size_px s - 1"
  shows "draw_pixel (x, y) rgb s = draw_pixel_at_index (x + y * size_px s) rgb s
         \<and> (session_ok s \<longrightarrow> (\<exists>s'. draw_pixel_at_index (x + y * size_px s) rgb s = Inr s'))"
proof -
  have eq: "draw_pixel (x, y) rgb s = draw_pixel_at_index (x + y * size_px s) rgb s"
    using assms by (simp add: draw_pixel_def)
  have "\<exists>s'. draw_pixel (x, y) rgb s = Inr s'" if "session_ok s"
    using draw_pixel_effect [OF that, of "(x, y)" rgb] by blast
  with eq show ?thesis by simp
qed

theorem write_pixel_matches_index_write_witness:
  "draw_pixel (3, 2) (1, 2, 3) (new_session 16 True True (7, 7, 7)) =
     draw_pixel_at_index 35 (1, 2, 3) (new_session 16 True True (7, 7, 7))
   \<and> (\<exists>s'. draw_pixel_at_index 35 (1, 2, 3) (new_session 16 True True (7, 7, 7)) = Inr s')"
  using write_pixel_matches_index_write [of 3 "new_session 16 True True (7, 7, 7)" 2 "(1, 2, 3)"]
    new_session_ok [of 16 True True "(7, 7, 7)"]
  by simp

lemma other_byte:
  "0 \<le> (k::int) \<Longrightarrow> i \<noteq> nat (3 * k) \<Longrightarrow> i \<noteq> nat (3 * k) + 1 \<Longrightarrow> i \<noteq> nat (3 * k) + 2
     \<Longrightarrow> int i div 3 \<noteq> k"
  by arith

text \<open>
  Claim C10. At a coordinate on the screen, \<^verbatim>\<open>draw_pixel\<close> changes nothing but the buffer,
  keeps its length, and leaves every byte other than those at offsets
  \<open>3 * (x + y * side)\<close>, \<open>+ 1\<close> and \<open>+ 2\<close> unchanged.
\<close>

theorem write_pixel_changes_three_bytes:
  assumes "session_ok s" and "0 \<le> x" and "x < size_px s" and "0 \<le> y" and "y < size_px s"
  shows "\<exists>s'. draw_pixel (x, y) rgb s = Inr s'
           \<and> s' = s\<lparr>buffer := buffer s'\<rparr>
           \<and> length (buffer s') = length (buffer s)
           \<and> (\<forall>i < length (buffer s).
                 i \<noteq> nat (3 * (x + y * size_px s)) \<and> i \<noteq> nat (3 * (x + y * size_px s)) + 1
                 \<and> i \<noteq> nat (3 * (x + y * size_px s)) + 2
                 \<longrightarrow> buffer s' ! i = buffer s ! i)"
proof -
  let ?k = "x + y * size_px s"
  from draw_pixel_effect [OF assms(1), of "(x, y)" rgb] obtain s' where
    s': "draw_pixel (x, y) rgb s = Inr s'" "s' = s\<lparr>buffer := buffer s'\<rparr>"
      "length (buffer s') = length (buffer s)"
      "\<forall>i < length (buffer s). buffer s' ! i =
          (if int i div 3 = ?k then stored rgb (i mod 3) else buffer s ! i)"
    using assms(2-5) by auto
  have k: "0 \<le> ?k" using index_in_range [OF assms] by simp
  have "buffer s' ! i = buffer s ! i"
    if "i < length (buffer s)" "i \<noteq> nat (3 * ?k)" "i \<noteq> nat (3 * ?k) + 1" "i \<noteq> nat (3 * ?k) + 2"
    for i
  proof -
    have "int i div 3 \<noteq> ?k" using other_byte [OF k that(2-4)] .
    with s'(4) that(1) show ?thesis by simp
  qed
  with s'(1-3) show ?thesis by blast
qed

theorem write_pixel_changes_three_bytes_witness:
  "session_ok (new_session 16 True True (7, 7, 7))
   \<and> (\<exists>s'. draw_pixel (3, 2) (1, 2, 3) (new_session 16 True True (7, 7, 7)) = Inr s'
         \<and> s' = (new_session 16 True True (7, 7, 7))\<lparr>buffer := buffer s'\<rparr>
         \<and> length (buffer s') = length (buffer (new_session 16 True True (7, 7, 7)))
         \<and> (\<forall>i < length (buffer (new_session 16 True True (7, 7, 7))).
               i \<noteq> 105 \<and> i \<noteq> 106 \<and> i \<noteq> 107
               \<longrightarrow> buffer s' ! i = buffer (new_session 16 True True (7, 7, 7)) ! i))"
proof -
  have ok: "session_ok (new_session 16 True True (7, 7, 7))" by (simp add: new_session_ok)
  show ?thesis
    using ok write_pixel_changes_three_bytes [OF ok, of 3 2 "(1, 2, 3)"] by simp
qed

section \<open>Rasterizer claims\<close>

lemma for_each_noop: "(\<And>v. v \<in> set vs \<Longrightarrow> body v s = Inr s) \<Longrightarrow> for_each body vs s = Inr s"
  by (induction vs) simp_all

lemma rectangle_as_points:
  "draw_filled_rectangle (x0, y0) (x1, y1) rgb s =
     for_each (\<lambda>p. draw_pixel p rgb) (concat (map (\<lambda>y. map (\<lambda>x. (x, y)) [x0..x1]) [y0..y1])) s"
  unfolding draw_filled_rectangle_def fst_conv snd_conv
  by (rule for_each_rows [of "\<lambda>p. draw_pixel p rgb"])

lemma rectangle_points_set:
  "(x, y) \<in> set (concat (map (\<lambda>y. map (\<lambda>x. (x, y)) [x0..x1]) [y0..y1]))
     \<longleftrightarrow> x0 \<le> x \<and> x \<le> x1 \<and> y0 \<le> y \<and> y \<le> y1"
  by (auto simp: image_iff)

text \<open>
  Claim C9. On a well-formed session \<^verbatim>\<open>draw_filled_rectangle\<close> returns normally, changes
  nothing but the buffer and keeps its length; afterwards a pixel of the screen holds the
  clamped colour when it lies in the inclusive rectangle from the top-left to the
  bottom-right corner, and what it held before otherwise. When the top-left corner exceeds
  the bottom-right one on an axis, nothing is written and no error is raised, as for the
  corners (2, 2) and (1, 1).
\<close>

theorem filled_rectangle_writes_inclusive_rectangle:
  "(session_ok s \<longrightarrow>
      (\<exists>s'. draw_filled_rectangle (x0, y0) (x1, y1) rgb s = Inr s'
         \<and> s' = s\<lparr>buffer := buffer s'\<rparr>
         \<and> length (buffer s') = length (buffer s)
         \<and> (\<forall>x y. 0 \<le> x \<and> x < size_px s \<and> 0 \<le> y \<and> y < size_px s \<longrightarrow>
               pixel_at s' (x, y) =
                 (if x0 \<le> x \<and> x \<le> x1 \<and> y0 \<le> y \<and> y \<le> y1 then clamp_color rgb
                  else pixel_at s (x, y)))))
   \<and> (x1 < x0 \<or> y1 < y0 \<longrightarrow> draw_filled_rectangle (x0, y0) (x1, y1) rgb s = Inr s)
   \<and> draw_filled_rectangle (2, 2) (1, 1) rgb s = Inr s"
proof -
  let ?pts = "concat (map (\<lambda>y. map (\<lambda>x. (x, y)) [x0..x1]) [y0..y1])"
  have main: "\<exists>s'. draw_filled_rectangle (x0, y0) (x1, y1) rgb s = Inr s'
         \<and> s' = s\<lparr>buffer := buffer s'\<rparr>
         \<and> length (buffer s') = length (buffer s)
         \<and> (\<forall>x y. 0 \<le> x \<and> x < size_px s \<and> 0 \<le> y \<and> y < size_px s \<longrightarrow>
               pixel_at s' (x, y) =
                 (if x0 \<le> x \<and> x \<le> x1 \<and> y0 \<le> y \<and> y \<le> y1 then clamp_color rgb
                  else pixel_at s (x, y)))" if ok: "session_ok s"
  proof -
    from draw_pixels_effect [OF ok, of rgb ?pts] obtain s' where
      s': "for_each (\<lambda>p. draw_pixel p rgb) ?pts s = Inr s'" "s' = s\<lparr>buffer := buffer s'\<rparr>"
        "length (buffer s') = length (buffer s)"
        "\<forall>i < length (buffer s). buffer s' ! i =
            (if covered s ?pts i then stored rgb (i mod 3) else buffer s ! i)"
      by blast
    have sz: "size_px s' = size_px s" by (subst s'(2)) simp
    have "pixel_at s' (x, y) =
        (if x0 \<le> x \<and> x \<le> x1 \<and> y0 \<le> y \<and> y \<le> y1 then clamp_color rgb else pixel_at s (x, y))"
      if "0 \<le> x" "x < size_px s" "0 \<le> y" "y < size_px s" for x y
      using pixel_at_covered [OF ok s'(3) sz s'(4) that]
      by (simp only: rectangle_points_set)
    then show ?thesis using s'(1-3) by (simp only: rectangle_as_points) blast
  qed
  have inverted: "draw_filled_rectangle (a0, b0) (a1, b1) rgb s = Inr s"
    if "a1 < a0 \<or> b1 < b0" for a0 b0 a1 b1 :: int
  proof (cases "b1 < b0")
    case True
    then show ?thesis by (simp add: draw_filled_rectangle_def)
  next
    case False
    with that have "[a0..a1] = []" by simp
    then show ?thesis
      unfolding draw_filled_rectangle_def fst_conv snd_conv
      by (intro for_each_noop) simp
  qed
  show ?thesis using main inverted [of x1 x0 y1 y0] inverted [of 1 2 1 2] by simp
qed

theorem filled_rectangle_writes_inclusive_rectangle_witness:
  "session_ok (new_session 16 True True (7, 7, 7))
   \<and> (\<exists>s'. draw_filled_rectangle (1, 2) (3, 4) (300, 20, - 1) (new_session 16 True True (7, 7, 7))
            = Inr s'
         \<and> pixel_at s' (3, 2) = (255, 20, 0)
         \<and> pixel_at s' (4, 2) = pixel_at (new_session 16 True True (7, 7, 7)) (4, 2))
   \<and> draw_filled_rectangle (5, 1) (4, 9) (300, 20, - 1) (new_session 16 True True (7, 7, 7))
        = Inr (new_session 16 True True (7, 7, 7))"
proof -
  let ?s = "new_session 16 True True (7, 7, 7)"
  have ok: "session_ok ?s" by (simp add: new_session_ok)
  have c: "clamp_color (300, 20, - 1) = (255, 20, 0)" by (simp add: clamp_color_def clamp_def)
  from filled_rectangle_writes_inclusive_rectangle [of ?s 1 2 3 4 "(300, 20, - 1)"] ok
  obtain s' where s': "draw_filled_rectangle (1, 2) (3, 4) (300, 20, - 1) ?s = Inr s'"
    "\<forall>x y. 0 \<le> x \<and> x < size_px ?s \<and> 0 \<le> y \<and> y < size_px ?s \<longrightarrow>
       pixel_at s' (x, y) =
         (if 1 \<le> x \<and> x \<le> 3 \<and> 2 \<le> y \<and> y \<le> 4 then clamp_color (300, 20, - 1)
          else pixel_at ?s (x, y))"
    by blast
  from s'(2) have "pixel_at s' (3, 2) = (255, 20, 0)" "pixel_at s' (4, 2) = pixel_at ?s (4, 2)"
    by (simp_all add: c)
  moreover have "draw_filled_rectangle (5, 1) (4, 9) (300, 20, - 1) ?s = Inr ?s"
    using filled_rectangle_writes_inclusive_rectangle [of ?s 5 1 4 9 "(300, 20, - 1)"] by simp
  ultimately show ?thesis using ok s'(1) by blast
qed

text \<open>Evaluating the float operations on numerals.\<close>

lemma floor_rat_numeral [simp]:
  "\<lfloor>numeral a / numeral b :: rat\<rfloor> = numeral a div numeral b"
  by (metis floor_divide_of_int_eq of_int_numeral)

lemma floor_rat_one_div [simp]: "\<lfloor>1 / numeral b :: rat\<rfloor> = 1 div numeral b"
  by (metis floor_divide_of_int_eq of_int_1 of_int_numeral)

lemma ceiling_rat_numeral [simp]:
  "\<lceil>numeral a / numeral b :: rat\<rceil> = - (- numeral a div numeral b)"
  using ceiling_divide_eq_div [of "numeral a" "numeral b", where ?'a = rat] by simp

lemma ceiling_rat_one_div [simp]: "\<lceil>1 / numeral b :: rat\<rceil> = - (- 1 div numeral b)"
  using ceiling_divide_eq_div [of 1 "numeral b", where ?'a = rat] by simp

lemmas float_eval = true_divide_def float_of_int_def float_result_def
  fl_def ilog2_def pow2_def round_half_even_def bit_length.simps Let_def

lemmas line_eval = line_of_def minimum_amount_of_steps_def line_add_def round_location_def
  lerp_location_def lerp_def py_round_def upto.simps List.insert_def

lemma line_of_zero_length: "line_of p p = Inr []"
  by (simp add: line_of_def minimum_amount_of_steps_def)

lemma line_of_example: "line_of (0, 0) (3, 0) = Inr [(2, 0), (1, 0), (0, 0)]"
  by (simp add: line_eval float_eval)

text \<open>
  Two places where the float arithmetic shows: step 15 of the line from (0, 0) to (11, 22)
  computes 7.499999999999999 and rounds down, and beyond \<open>2\<^sup>5\<^sup>3\<close> the start of a line is
  itself rounded when it is converted.
\<close>

lemma line_add_rounds_in_binary64: "line_add (0, 0) (11, 22) 22 15 [] = Inr [(7, 15)]"
  by (simp add: line_eval float_eval)

lemma line_of_beyond_2_53:
  "line_of (9007199254740995, 0) (9007199254740996, 0) = Inr [(9007199254740996, 0)]"
  by (simp add: line_eval float_eval)

text \<open>
  The error of rounding to binary64, and what it leaves of a line: on the axis with the
  larger distance the computed coordinate is the exact one, \<open>step\<close> places from the start.
\<close>

lemma bit_length_bounds:
  "1 \<le> n \<Longrightarrow> 1 \<le> bit_length n \<and> 2 ^ nat (bit_length n - 1) \<le> n \<and> n < 2 ^ nat (bit_length n)"
proof (induction n rule: bit_length.induct)
  case (1 n)
  show ?case
  proof (cases "n = 1")
    case True
    then show ?thesis by (simp add: bit_length.simps)
  next
    case False
    with "1.prems" have m: "1 \<le> n div 2" by simp
    from "1.IH" [OF _ m] "1.prems"
    have ih: "1 \<le> bit_length (n div 2)" "2 ^ nat (bit_length (n div 2) - 1) \<le> n div 2"
      "n div 2 < 2 ^ nat (bit_length (n div 2))"
      by simp_all
    have bl: "bit_length n = 1 + bit_length (n div 2)"
      using "1.prems" by (subst bit_length.simps) simp
    have e1: "nat (bit_length n - 1) = Suc (nat (bit_length (n div 2) - 1))"
      using ih(1) bl by simp
    have e2: "nat (bit_length n) = Suc (nat (bit_length (n div 2)))"
      using ih(1) bl by simp
    have "2 * (n div 2) \<le> n" "n < 2 * (n div 2) + 2" by simp_all
    then show ?thesis using ih bl unfolding e1 e2 by simp
  qed
qed

lemma pow2_pos: "0 < pow2 k"
  by (simp add: pow2_def)

lemma pow2_powi: "pow2 k = 2 powi k"
  by (simp add: pow2_def power_int_def field_simps)

lemma ilog2_lower:
  assumes "0 < x"
  shows "pow2 (ilog2 x) \<le> x"
proof (cases "1 \<le> x")
  case True
  then have m: "1 \<le> \<lfloor>x\<rfloor>" by simp
  from bit_length_bounds [OF m] have "(2::int) ^ nat (bit_length \<lfloor>x\<rfloor> - 1) \<le> \<lfloor>x\<rfloor>"
    and "1 \<le> bit_length \<lfloor>x\<rfloor>" by simp_all
  then have "(of_int (2 ^ nat (bit_length \<lfloor>x\<rfloor> - 1)) :: rat) \<le> of_int \<lfloor>x\<rfloor>"
    by (simp only: of_int_le_iff)
  also have "\<dots> \<le> x" by simp
  finally show ?thesis
    using True \<open>1 \<le> bit_length \<lfloor>x\<rfloor>\<close> by (simp add: ilog2_def pow2_def)
next
  case False
  let ?c = "\<lceil>1 / x\<rceil>"
  let ?k = "bit_length (?c - 1)"
  from False assms have "1 < 1 / x" by (simp add: field_simps)
  then have c: "2 \<le> ?c" by (simp add: le_ceiling_iff)
  then have m: "1 \<le> ?c - 1" by simp
  from bit_length_bounds [OF m] have k: "1 \<le> ?k" "?c - 1 < 2 ^ nat ?k" by simp_all
  then have "?c \<le> 2 ^ nat ?k" by simp
  then have "(of_int ?c :: rat) \<le> of_int (2 ^ nat ?k)" by (simp only: of_int_le_iff)
  moreover have "1 / x \<le> of_int ?c" by (rule le_of_int_ceiling)
  moreover have "(of_int (2 ^ nat ?k) :: rat) = 2 ^ nat ?k" by simp
  ultimately have "1 / x \<le> 2 ^ nat ?k" by linarith
  then have "1 / 2 ^ nat ?k \<le> x" using assms by (simp add: field_simps)
  then show ?thesis using False k(1) by (simp add: ilog2_def pow2_def)
qed

lemma round_half_even_error: "\<bar>of_int (round_half_even q) - q\<bar> \<le> 1 / 2"
proof -
  have "of_int \<lfloor>q\<rfloor> \<le> q" "q < of_int \<lfloor>q\<rfloor> + 1" by linarith+
  then show ?thesis by (auto simp: round_half_even_def Let_def)
qed

lemma round_half_even_near:
  assumes "\<bar>v - of_int k\<bar> < 1 / 2"
  shows "round_half_even v = k"
proof -
  have "\<bar>of_int (round_half_even v) - (of_int k :: rat)\<bar> < 1"
    using round_half_even_error [of v] assms by linarith
  then have "\<bar>(of_int (round_half_even v - k) :: rat)\<bar> < 1" by simp
  then have "\<bar>round_half_even v - k\<bar> < 1"
    by (metis of_int_1 of_int_abs of_int_less_iff)
  then show ?thesis by simp
qed

lemma fl_error: "\<bar>fl x - x\<bar> \<le> (\<bar>x\<bar> + 1) / 9007199254740992"
proof (cases "x = 0")
  case True
  then show ?thesis by (simp add: fl_def)
next
  case False
  let ?e0 = "ilog2 \<bar>x\<bar>"
  let ?q = "pow2 (max ?e0 (- 1022) - 52)"
  have q: "0 < ?q" by (rule pow2_pos)
  have "fl x - x = (of_int (round_half_even (x / ?q)) - x / ?q) * ?q"
    using False q by (simp add: fl_def Let_def field_simps)
  then have "\<bar>fl x - x\<bar> = \<bar>of_int (round_half_even (x / ?q)) - x / ?q\<bar> * ?q"
    using q by (simp add: abs_mult)
  also have "\<dots> \<le> (1 / 2) * ?q"
    using round_half_even_error [of "x / ?q"] q by (intro mult_right_mono) simp_all
  also have "\<dots> \<le> (\<bar>x\<bar> + 1) / 9007199254740992"
  proof (cases "- 1022 \<le> ?e0")
    case True
    then have "?q = pow2 ?e0 / 2 ^ 52"
      by (simp add: max_def pow2_powi power_int_diff)
    moreover have "pow2 ?e0 \<le> \<bar>x\<bar>" using ilog2_lower [of "\<bar>x\<bar>"] False by simp
    ultimately show ?thesis by (simp add: field_simps)
  next
    case False
    then have "?q = pow2 (- 1074)" by (simp add: max_def)
    also have "\<dots> \<le> 2 / 2 ^ 53" by (simp add: pow2_def)
    finally show ?thesis by (simp add: field_simps) 
  qed
  finally show ?thesis .
qed

lemma fl_error_bound:
  assumes "\<bar>x\<bar> \<le> m"
  shows "\<bar>fl x - x\<bar> \<le> (m + 1) / 9007199254740992"
proof -
  have "(\<bar>x\<bar> + 1) / 9007199254740992 \<le> (m + 1) / 9007199254740992"
    using assms by (intro divide_right_mono) simp_all
  with fl_error [of x] show ?thesis by (rule order_trans)
qed

lemma float_result_finite:
  assumes "\<bar>x\<bar> \<le> 1152921504606846976"
  shows "float_result x = Finite (fl x)"
proof -
  have "\<bar>fl x - x\<bar> \<le> 1152921504606846977 / 9007199254740992"
    using fl_error_bound [OF assms] by simp
  then have "\<bar>fl x\<bar> < 2305843009213693952" using assms by linarith
  moreover have "(2305843009213693952::rat) < pow2 1024" by (simp add: pow2_def)
  ultimately show ?thesis by (simp add: float_result_def Let_def) linarith
qed

lemma abs_mult_le:
  fixes x y :: rat
  assumes "\<bar>x\<bar> \<le> a" "\<bar>y\<bar> \<le> b"
  shows "\<bar>x * y\<bar> \<le> a * b"
proof -
  have "\<bar>x * y\<bar> = \<bar>x\<bar> * \<bar>y\<bar>" by (rule abs_mult)
  also have "\<dots> \<le> a * b" using assms by (intro mult_mono) simp_all
  finally show ?thesis .
qed

lemma lerp_float_close:
  assumes a: "\<bar>a\<bar> \<le> 2 ^ 47" and b: "\<bar>b\<bar> \<le> 2 ^ 47"
    and n: "1 \<le> n" and t: "0 \<le> t" "t < n"
  shows "\<exists>v. lerp a b (Floating (Finite (fl (of_int t / of_int n)))) = Inr (Floating (Finite v))
           \<and> \<bar>v - (of_int a + of_int t / of_int n * of_int (b - a))\<bar> < 1 / 2"
proof -
  define r :: rat where "r = of_int t / of_int n"
  define d :: rat where "d = of_int (b - a)"
  define i where "i = fl r"
  define D where "D = fl d"
  define A where "A = fl (of_int a)"
  define P where "P = fl (i * D)"
  define V where "V = fl (A + P)"
  have r: "0 \<le> r" "r \<le> 1" using n t by (simp_all add: r_def)
  have d: "\<bar>d\<bar> \<le> 281474976710656"
  proof -
    have "\<bar>b - a\<bar> \<le> 281474976710656" using a b by simp
    then have "(of_int \<bar>b - a\<bar> :: rat) \<le> of_int 281474976710656" by (simp only: of_int_le_iff)
    then show ?thesis by (simp add: d_def)
  qed
  have ra: "\<bar>(of_int a :: rat)\<bar> \<le> 140737488355328"
  proof -
    have "\<bar>a\<bar> \<le> 140737488355328" using a by simp
    then have "(of_int \<bar>a\<bar> :: rat) \<le> of_int 140737488355328" by (simp only: of_int_le_iff)
    then show ?thesis by simp
  qed
  have ei: "\<bar>i - r\<bar> \<le> 2 / 9007199254740992"
    using fl_error_bound [of r 1] r unfolding i_def by simp
  then have bi: "\<bar>i\<bar> \<le> 2" using r by linarith
  have eD: "\<bar>D - d\<bar> \<le> 281474976710657 / 9007199254740992"
    using fl_error_bound [OF d] unfolding D_def by simp
  then have bD: "\<bar>D\<bar> \<le> 281474976710657" using d by linarith
  have biD: "\<bar>i * D\<bar> \<le> 562949953421314" using abs_mult_le [OF bi bD] by simp
  have eP: "\<bar>P - i * D\<bar> \<le> 562949953421315 / 9007199254740992"
    using fl_error_bound [OF biD] unfolding P_def by simp
  then have bP: "\<bar>P\<bar> \<le> 562949953421315" using biD by linarith
  have eA: "\<bar>A - of_int a\<bar> \<le> 140737488355329 / 9007199254740992"
    using fl_error_bound [OF ra] unfolding A_def by simp
  then have bA: "\<bar>A\<bar> \<le> 140737488355329" using ra by linarith
  have bAP: "\<bar>A + P\<bar> \<le> 703687441776644" using bA bP by linarith
  have eV: "\<bar>V - (A + P)\<bar> \<le> 703687441776645 / 9007199254740992"
    using fl_error_bound [OF bAP] unfolding V_def by simp
  have split: "i * D - r * d = (i - r) * D + r * (D - d)" by (simp add: algebra_simps)
  have "\<bar>(i - r) * D\<bar> \<le> 2 / 9007199254740992 * 281474976710657" by (rule abs_mult_le [OF ei bD])
  then have e1: "\<bar>(i - r) * D\<bar> \<le> 562949953421314 / 9007199254740992" by simp
  have "\<bar>r\<bar> \<le> 1" using r by simp
  from abs_mult_le [OF this eD]
  have e2: "\<bar>r * (D - d)\<bar> \<le> 281474976710657 / 9007199254740992" by simp
  have eprod: "\<bar>i * D - r * d\<bar> \<le> 844424930131971 / 9007199254740992"
    unfolding split using e1 e2 by linarith
  have close: "\<bar>V - (of_int a + r * d)\<bar> < 1 / 2"
    using eV eA eP eprod by linarith
  have "float_of_int (b - a) = Inr (Finite D)"
    using float_result_finite [of d] d by (simp add: float_of_int_def D_def d_def)
  moreover have "float_of_int a = Inr (Finite A)"
    using float_result_finite [of "of_int a"] ra by (simp add: float_of_int_def A_def)
  moreover have "float_mul (Finite i) (Finite D) = Finite P"
    using float_result_finite [of "i * D"] biD by (simp add: P_def)
  moreover have "float_add (Finite A) (Finite P) = Finite V"
    using float_result_finite [of "A + P"] bAP by (simp add: V_def)
  ultimately have "lerp a b (Floating (Finite i)) = Inr (Floating (Finite V))"
    by (simp add: lerp_def)
  with close show ?thesis unfolding i_def r_def d_def by blast
qed


lemma true_divide_step:
  assumes "1 \<le> n" "0 \<le> t" "t < n"
  shows "true_divide t n = Inr (Finite (fl (of_int t / of_int n)))"
proof -
  have "\<bar>(of_int t / of_int n :: rat)\<bar> \<le> 1" using assms by simp
  then have "\<bar>(of_int t / of_int n :: rat)\<bar> \<le> 1152921504606846976" by linarith
  from float_result_finite [OF this] assms(1) show ?thesis by (simp add: true_divide_def)
qed

lemma dominant_axis_moves:
  assumes a: "\<bar>a\<bar> \<le> 2 ^ 47" and b: "\<bar>b\<bar> \<le> 2 ^ 47"
    and n: "1 \<le> n" and t: "0 \<le> t" "t < n" and dom: "\<bar>a - b\<bar> = n"
    and l: "lerp a b (Floating (Finite (fl (of_int t / of_int n)))) = Inr v"
  shows "\<exists>c. py_round v = Inr c \<and> c \<noteq> b"
proof -
  from lerp_float_close [OF a b n t] l obtain w where
    w: "v = Floating (Finite w)"
      "\<bar>w - (of_int a + of_int t / of_int n * of_int (b - a))\<bar> < 1 / 2"
    by auto
  have n0: "(of_int n :: rat) \<noteq> 0" using n by simp
  show ?thesis
  proof (cases "a \<le> b")
    case True
    with dom have "b - a = n" by simp
    then have "of_int a + of_int t / of_int n * of_int (b - a) = (of_int (a + t) :: rat)"
      using n0 by simp
    with w(2) have "round_half_even w = a + t" by (simp only: round_half_even_near)
    moreover have "a + t \<noteq> b" using \<open>b - a = n\<close> t by simp
    ultimately show ?thesis by (simp add: w(1) py_round_def)
  next
    case False
    with dom have "b - a = - n" by simp
    then have "of_int a + of_int t / of_int n * of_int (b - a) = (of_int (a - t) :: rat)"
      using n0 by simp
    with w(2) have "round_half_even w = a - t" by (simp only: round_half_even_near)
    moreover have "a - t \<noteq> b" using \<open>b - a = - n\<close> t by simp
    ultimately show ?thesis by (simp add: w(1) py_round_def)
  qed
qed

lemma other_axis_rounds:
  assumes a: "\<bar>a\<bar> \<le> 2 ^ 47" and b: "\<bar>b\<bar> \<le> 2 ^ 47"
    and n: "1 \<le> n" and t: "0 \<le> t" "t < n"
  shows "\<exists>v c. lerp a b (Floating (Finite (fl (of_int t / of_int n)))) = Inr v \<and> py_round v = Inr c"
  using lerp_float_close [OF a b n t] by (auto simp: py_round_def)

lemma line_add_misses_stop:
  assumes bounds: "\<bar>fst start_xy\<bar> \<le> 2 ^ 47" "\<bar>snd start_xy\<bar> \<le> 2 ^ 47"
      "\<bar>fst stop_xy\<bar> \<le> 2 ^ 47" "\<bar>snd stop_xy\<bar> \<le> 2 ^ 47"
    and t: "0 \<le> t" "t < minimum_amount_of_steps start_xy stop_xy"
  shows "\<exists>pixel. line_add start_xy stop_xy (minimum_amount_of_steps start_xy stop_xy) t line =
           Inr (List.insert pixel line) \<and> pixel \<noteq> stop_xy"
proof -
  let ?n = "minimum_amount_of_steps start_xy stop_xy"
  let ?i = "Floating (Finite (fl (of_int t / of_int ?n)))"
  have n: "1 \<le> ?n" using t by simp
  have td: "true_divide t ?n = Inr (Finite (fl (of_int t / of_int ?n)))"
    by (rule true_divide_step [OF n t])
  from other_axis_rounds [OF bounds(1,3) n t] obtain vx cx where
    x: "lerp (fst start_xy) (fst stop_xy) ?i = Inr vx" "py_round vx = Inr cx" by blast
  from other_axis_rounds [OF bounds(2,4) n t] obtain vy cy where
    y: "lerp (snd start_xy) (snd stop_xy) ?i = Inr vy" "py_round vy = Inr cy" by blast
  have res: "line_add start_xy stop_xy ?n t line = Inr (List.insert (cx, cy) line)"
    using n td x y
    by (simp add: line_add_def lerp_location_def round_location_def)
  have "\<bar>fst start_xy - fst stop_xy\<bar> = ?n \<or> \<bar>snd start_xy - snd stop_xy\<bar> = ?n"
    by (auto simp: minimum_amount_of_steps_def max_def)
  then have "(cx, cy) \<noteq> stop_xy"
  proof
    assume "\<bar>fst start_xy - fst stop_xy\<bar> = ?n"
    from dominant_axis_moves [OF bounds(1,3) n t this x(1)] x(2) show ?thesis by auto
  next
    assume "\<bar>snd start_xy - snd stop_xy\<bar> = ?n"
    from dominant_axis_moves [OF bounds(2,4) n t this y(1)] y(2) show ?thesis by auto
  qed
  with res show ?thesis by blast
qed

lemma line_loop_misses_stop:
  assumes bounds: "\<bar>fst start_xy\<bar> \<le> 2 ^ 47" "\<bar>snd start_xy\<bar> \<le> 2 ^ 47"
      "\<bar>fst stop_xy\<bar> \<le> 2 ^ 47" "\<bar>snd stop_xy\<bar> \<le> 2 ^ 47"
    and steps: "\<forall>t \<in> set steps. 0 \<le> t \<and> t < minimum_amount_of_steps start_xy stop_xy"
    and line: "stop_xy \<notin> set line"
  shows "\<exists>line'. line_loop start_xy stop_xy (minimum_amount_of_steps start_xy stop_xy) steps line
             = Inr line' \<and> stop_xy \<notin> set line'"
  using steps line
proof (induction steps arbitrary: line)
  case Nil
  then show ?case by simp
next
  case (Cons t steps)
  from Cons.prems(1) have t: "0 \<le> t" "t < minimum_amount_of_steps start_xy stop_xy" by simp_all
  from line_add_misses_stop [OF bounds t, of line] obtain pixel where
    p: "line_add start_xy stop_xy (minimum_amount_of_steps start_xy stop_xy) t line =
          Inr (List.insert pixel line)" "pixel \<noteq> stop_xy"
    by blast
  have "stop_xy \<notin> set (List.insert pixel line)" using p(2) Cons.prems(2) by simp
  moreover have "\<forall>t \<in> set steps. 0 \<le> t \<and> t < minimum_amount_of_steps start_xy stop_xy"
    using Cons.prems(1) by simp
  ultimately obtain line' where
    "line_loop start_xy stop_xy (minimum_amount_of_steps start_xy stop_xy) steps
       (List.insert pixel line) = Inr line'" "stop_xy \<notin> set line'"
    using Cons.IH by blast
  with p(1) show ?case by simp
qed

lemma line_of_misses_stop:
  assumes "\<bar>fst start_xy\<bar> \<le> 2 ^ 47" "\<bar>snd start_xy\<bar> \<le> 2 ^ 47"
      "\<bar>fst stop_xy\<bar> \<le> 2 ^ 47" "\<bar>snd stop_xy\<bar> \<le> 2 ^ 47"
  shows "\<exists>line. line_of start_xy stop_xy = Inr line \<and> stop_xy \<notin> set line"
  unfolding line_of_def Let_def
  by (rule line_loop_misses_stop [OF assms]) simp_all


text \<open>
  Claim C1 (the code departs from it). The loop of \<^verbatim>\<open>draw_line\<close> runs over
  \<^verbatim>\<open>range(amount_of_steps)\<close>, which leaves out the last step. A line from a point to
  itself writes nothing, and the line from (0, 0) to (3, 0) writes (0, 0), (1, 0) and (2, 0)
  only. For all end points whose coordinates are at most \<open>2\<^sup>4\<^sup>7\<close> in absolute value the
  line is computed without error and never contains its end point, so on a well-formed
  session the pixel at an end point on the screen is left as it was.
\<close>

theorem draw_line_omits_end_point:
  "draw_line p p rgb s = Inr s
   \<and> draw_line (0, 0) (3, 0) rgb s =
       for_each (\<lambda>pixel. draw_pixel pixel rgb) [(2, 0), (1, 0), (0, 0)] s
   \<and> (\<bar>fst start_xy\<bar> \<le> 2 ^ 47 \<and> \<bar>snd start_xy\<bar> \<le> 2 ^ 47
        \<and> \<bar>fst stop_xy\<bar> \<le> 2 ^ 47 \<and> \<bar>snd stop_xy\<bar> \<le> 2 ^ 47 \<longrightarrow>
        (\<exists>line. line_of start_xy stop_xy = Inr line \<and> stop_xy \<notin> set line))
   \<and> (session_ok s
        \<and> \<bar>fst start_xy\<bar> \<le> 2 ^ 47 \<and> \<bar>snd start_xy\<bar> \<le> 2 ^ 47
        \<and> 0 \<le> fst stop_xy \<and> fst stop_xy < size_px s
        \<and> 0 \<le> snd stop_xy \<and> snd stop_xy < size_px s \<longrightarrow>
        (\<exists>s'. draw_line start_xy stop_xy rgb s = Inr s'
           \<and> pixel_at s' stop_xy = pixel_at s stop_xy))"
proof (intro conjI impI)
  show "draw_line p p rgb s = Inr s"
    by (simp add: draw_line_def line_of_zero_length)
  show "draw_line (0, 0) (3, 0) rgb s =
       for_each (\<lambda>pixel. draw_pixel pixel rgb) [(2, 0), (1, 0), (0, 0)] s"
    by (simp add: draw_line_def line_of_example)
next
  assume "\<bar>fst start_xy\<bar> \<le> 2 ^ 47 \<and> \<bar>snd start_xy\<bar> \<le> 2 ^ 47
        \<and> \<bar>fst stop_xy\<bar> \<le> 2 ^ 47 \<and> \<bar>snd stop_xy\<bar> \<le> 2 ^ 47"
  then show "\<exists>line. line_of start_xy stop_xy = Inr line \<and> stop_xy \<notin> set line"
    by (intro line_of_misses_stop) simp_all
next
  assume h: "session_ok s
        \<and> \<bar>fst start_xy\<bar> \<le> 2 ^ 47 \<and> \<bar>snd start_xy\<bar> \<le> 2 ^ 47
        \<and> 0 \<le> fst stop_xy \<and> fst stop_xy < size_px s
        \<and> 0 \<le> snd stop_xy \<and> snd stop_xy < size_px s"
  then have ok: "session_ok s" by simp
  from h have "size_px s \<le> 64" by (auto simp: session_ok_def)
  with h have "\<bar>fst stop_xy\<bar> \<le> 2 ^ 47" "\<bar>snd stop_xy\<bar> \<le> 2 ^ 47" by simp_all
  with h obtain line where
    line: "line_of start_xy stop_xy = Inr line" "stop_xy \<notin> set line"
    using line_of_misses_stop [of start_xy stop_xy] by blast
  from draw_pixels_effect [OF ok, of rgb line] obtain s' where
    s': "for_each (\<lambda>p. draw_pixel p rgb) line s = Inr s'" "s' = s\<lparr>buffer := buffer s'\<rparr>"
      "length (buffer s') = length (buffer s)"
      "\<forall>i < length (buffer s). buffer s' ! i =
          (if covered s line i then stored rgb (i mod 3) else buffer s ! i)"
    by blast
  have sz: "size_px s' = size_px s" by (subst s'(2)) simp
  have "pixel_at s' (fst stop_xy, snd stop_xy) =
      (if (fst stop_xy, snd stop_xy) \<in> set line then clamp_color rgb
       else pixel_at s (fst stop_xy, snd stop_xy))"
    using h by (intro pixel_at_covered [OF ok s'(3) sz s'(4)]) simp_all
  with line(2) have "pixel_at s' stop_xy = pixel_at s stop_xy" by simp
  moreover have "draw_line start_xy stop_xy rgb s = Inr s'"
    using line(1) s'(1) by (simp add: draw_line_def)
  ultimately show "\<exists>s'. draw_line start_xy stop_xy rgb s = Inr s'
           \<and> pixel_at s' stop_xy = pixel_at s stop_xy"
    by blast
qed

theorem draw_line_omits_end_point_witness:
  "(\<exists>line. line_of (2, 1) (15, 9) = Inr line \<and> (15, 9) \<notin> set line)
   \<and> (\<exists>s'. draw_line (2, 1) (15, 9) (1, 2, 3) (new_session 16 True True (7, 7, 7)) = Inr s'
         \<and> pixel_at s' (15, 9) = pixel_at (new_session 16 True True (7, 7, 7)) (15, 9))"
  using draw_line_omits_end_point
    [of "(0, 0)" "(1, 2, 3)" "new_session 16 True True (7, 7, 7)" "(2, 1)" "(15, 9)"]
    new_session_ok [of 16 True True "(7, 7, 7)"]
  by simp

section \<open>Transmission controller claims\<close>

lemma tripping_session_fields [simp]:
  "size_px (tripping_session sim) = 16" "simulated (tripping_session sim) = sim"
  "refresh_connection_automatically (tripping_session sim) = True"
  "counter (tripping_session sim) = 31" "sent (tripping_session sim) = []"
  "displayed (tripping_session sim) = []" "buffers_send (tripping_session sim) = 0"
  by (simp_all add: tripping_session_def)

lemma tripping_session_bytes:
  "list_all (\<lambda>v. 0 \<le> v \<and> v < 256) (buffer (tripping_session sim))"
  using new_session_ok [of 16 True sim "(0, 0, 0)"]
  by (simp add: tripping_session_def session_ok_def)

lemma push_simulated:
  assumes "simulated s"
  shows "push chan s =
     Inr (s\<lparr>counter :=
               (if refresh_connection_automatically s \<and> counter s + 1 \<ge> refresh_counter_limit
                then 1 else counter s + 1),
            displayed := displayed s @
               [(buffer s,
                 if refresh_connection_automatically s \<and> counter s + 1 \<ge> refresh_counter_limit
                 then 1 else counter s + 1)],
            buffers_send := buffers_send s + 1\<rparr>)"
  using assms
  by (simp add: push_def send_buffer_def reset_counter_def simulator_display_def Let_def)

lemma push_device:
  assumes "\<not> simulated s" and "push chan s = Inr s'"
  shows "s' = s\<lparr>counter :=
               (if refresh_connection_automatically s \<and> counter s + 1 \<ge> refresh_counter_limit
                then 1 else counter s + 1),
            sent := sent s @
               (if refresh_connection_automatically s \<and> counter s + 1 \<ge> refresh_counter_limit
                then [(''Draw/ResetHttpGifId'', [])] else []) @
               [gif_frame (size_px s)
                  (if refresh_connection_automatically s \<and> counter s + 1 \<ge> refresh_counter_limit
                   then 1 else counter s + 1) (buffer s)],
            buffers_send := buffers_send s + 1\<rparr>"
  using assms
  by (auto simp: push_def send_buffer_def reset_counter_def send_command_def bytearray_def
      gif_frame_def Let_def split: if_splits sum.splits)

lemma push_returns:
  assumes "simulated s \<or> (\<forall>h c. chan h c) \<and> list_all (\<lambda>v. 0 \<le> v \<and> v < 256) (buffer s)"
  shows "\<exists>s'. push chan s = Inr s'"
proof (cases "simulated s")
  case True
  then show ?thesis by (simp add: push_simulated)
next
  case False
  with assms show ?thesis
    by (simp add: push_def send_buffer_def reset_counter_def send_command_def bytearray_def
        Let_def)
qed


text \<open>
  Claim C2, amended. Every push that returns has incremented the counter first. With
  automatic refresh on and the incremented counter at or above the limit of 32, the counter
  is set to 1 before the frame goes out: in device mode the channel receives
  \<^verbatim>\<open>Draw/ResetHttpGifId\<close> and then the frame with picture id 1, in simulated mode no command
  is sent and the simulator receives the frame with id 1. Otherwise the frame goes out
  under the incremented counter. With automatic refresh on, the id sent is always below
  the limit. A push returns in simulated mode, and in device mode whenever the channel
  executes its commands and the buffer holds bytes.
\<close>

theorem push_resets_before_sending:
  "(\<forall>s'. push chan s = Inr s' \<longrightarrow>
      (refresh_connection_automatically s \<and> counter s + 1 \<ge> refresh_counter_limit \<longrightarrow>
         counter s' = 1
         \<and> (simulated s \<longrightarrow> sent s' = sent s \<and> displayed s' = displayed s @ [(buffer s, 1)])
         \<and> (\<not> simulated s \<longrightarrow> displayed s' = displayed s
              \<and> sent s' = sent s @ [(''Draw/ResetHttpGifId'', []),
                                     gif_frame (size_px s) 1 (buffer s)]))
      \<and> (\<not> (refresh_connection_automatically s \<and> counter s + 1 \<ge> refresh_counter_limit) \<longrightarrow>
         counter s' = counter s + 1
         \<and> (simulated s \<longrightarrow> sent s' = sent s
              \<and> displayed s' = displayed s @ [(buffer s, counter s + 1)])
         \<and> (\<not> simulated s \<longrightarrow> displayed s' = displayed s
              \<and> sent s' = sent s @ [gif_frame (size_px s) (counter s + 1) (buffer s)]))
      \<and> (refresh_connection_automatically s \<longrightarrow> counter s' < refresh_counter_limit))
   \<and> (simulated s \<or> (\<forall>h c. chan h c) \<and> list_all (\<lambda>v. 0 \<le> v \<and> v < 256) (buffer s)
        \<longrightarrow> (\<exists>s'. push chan s = Inr s'))"
proof -
  have lim: "refresh_connection_automatically s \<longrightarrow> counter s' < refresh_counter_limit"
    if r: "push chan s = Inr s'" for s'
  proof (cases "simulated s")
    case True
    with r show ?thesis by (auto simp: push_simulated refresh_counter_limit_def)
  next
    case False
    from push_device [OF False r] show ?thesis
      by (simp add: refresh_counter_limit_def)
  qed
  have trip: "counter s' = 1
         \<and> (simulated s \<longrightarrow> sent s' = sent s \<and> displayed s' = displayed s @ [(buffer s, 1)])
         \<and> (\<not> simulated s \<longrightarrow> displayed s' = displayed s
              \<and> sent s' = sent s @ [(''Draw/ResetHttpGifId'', []),
                                     gif_frame (size_px s) 1 (buffer s)])"
    if r: "push chan s = Inr s'"
      and t: "refresh_connection_automatically s \<and> counter s + 1 \<ge> refresh_counter_limit"
    for s'
  proof (cases "simulated s")
    case True
    with r t show ?thesis by (auto simp: push_simulated)
  next
    case False
    from push_device [OF False r] t False show ?thesis by simp
  qed
  have plain: "counter s' = counter s + 1
         \<and> (simulated s \<longrightarrow> sent s' = sent s
              \<and> displayed s' = displayed s @ [(buffer s, counter s + 1)])
         \<and> (\<not> simulated s \<longrightarrow> displayed s' = displayed s
              \<and> sent s' = sent s @ [gif_frame (size_px s) (counter s + 1) (buffer s)])"
    if r: "push chan s = Inr s'"
      and t: "\<not> (refresh_connection_automatically s \<and> counter s + 1 \<ge> refresh_counter_limit)"
    for s'
  proof (cases "simulated s")
    case True
    with r t show ?thesis by (auto simp: push_simulated)
  next
    case False
    from push_device [OF False r] t False show ?thesis by auto
  qed
  have returns: "\<exists>s'. push chan s = Inr s'"
    if "simulated s \<or> (\<forall>h c. chan h c) \<and> list_all (\<lambda>v. 0 \<le> v \<and> v < 256) (buffer s)"
    using that by (rule push_returns)
  show ?thesis
  proof (intro conjI)
    show "\<forall>s'. push chan s = Inr s' \<longrightarrow>
      (refresh_connection_automatically s \<and> counter s + 1 \<ge> refresh_counter_limit \<longrightarrow>
         counter s' = 1
         \<and> (simulated s \<longrightarrow> sent s' = sent s \<and> displayed s' = displayed s @ [(buffer s, 1)])
         \<and> (\<not> simulated s \<longrightarrow> displayed s' = displayed s
              \<and> sent s' = sent s @ [(''Draw/ResetHttpGifId'', []),
                                     gif_frame (size_px s) 1 (buffer s)]))
      \<and> (\<not> (refresh_connection_automatically s \<and> counter s + 1 \<ge> refresh_counter_limit) \<longrightarrow>
         counter s' = counter s + 1
         \<and> (simulated s \<longrightarrow> sent s' = sent s
              \<and> displayed s' = displayed s @ [(buffer s, counter s + 1)])
         \<and> (\<not> simulated s \<longrightarrow> displayed s' = displayed s
              \<and> sent s' = sent s @ [gif_frame (size_px s) (counter s + 1) (buffer s)]))
      \<and> (refresh_connection_automatically s \<longrightarrow> counter s' < refresh_counter_limit)"
      using lim trip plain by blast
    show "simulated s \<or> (\<forall>h c. chan h c) \<and> list_all (\<lambda>v. 0 \<le> v \<and> v < 256) (buffer s)
        \<longrightarrow> (\<exists>s'. push chan s = Inr s')"
      using returns by blast
  qed
qed

theorem push_resets_before_sending_witness:
  "(\<exists>s'. push reliable_channel (tripping_session False) = Inr s'
      \<and> counter s' = 1
      \<and> sent s' = [(''Draw/ResetHttpGifId'', []),
                    gif_frame 16 1 (buffer (tripping_session False))]
      \<and> displayed s' = [])
   \<and> (\<exists>s'. push failing_channel (new_session 16 True True (0, 0, 0)) = Inr s'
      \<and> counter s' = 2
      \<and> sent s' = []
      \<and> displayed s' = [(buffer (new_session 16 True True (0, 0, 0)), 2)])"
proof -
  note inst = push_resets_before_sending [of reliable_channel "tripping_session False"]
  have "\<exists>s'. push reliable_channel (tripping_session False) = Inr s'"
    using inst tripping_session_bytes [of False] by (simp add: reliable_channel_def)
  then obtain s' where s': "push reliable_channel (tripping_session False) = Inr s'" ..
  with inst have one: "counter s' = 1
     \<and> sent s' = [(''Draw/ResetHttpGifId'', []), gif_frame 16 1 (buffer (tripping_session False))]
     \<and> displayed s' = []"
    by (simp add: refresh_counter_limit_def)
  let ?s = "new_session 16 True True (0, 0, 0)"
  note sim = push_resets_before_sending [of failing_channel ?s]
  have "\<exists>s'. push failing_channel ?s = Inr s'" using sim by simp
  then obtain s'' where s'': "push failing_channel ?s = Inr s''" ..
  with sim have two: "counter s'' = 2 \<and> sent s'' = [] \<and> displayed s'' = [(buffer ?s, 2)]"
    by (simp add: refresh_counter_limit_def)
  from s' one s'' two show ?thesis by blast
qed

text \<open>
  Claim C2 as stated fails in simulated mode: with automatic refresh on and the counter at
  31, the push sets the counter to 1 and shows the frame under id 1, but no reset command
  is issued; the command log stays empty.
\<close>

theorem push_simulated_sends_no_reset:
  "refresh_connection_automatically (tripping_session True)
   \<and> counter (tripping_session True) + 1 \<ge> refresh_counter_limit
   \<and> push reliable_channel (tripping_session True) =
       Inr ((tripping_session True)
              \<lparr>counter := 1, displayed := [(buffer (tripping_session True), 1)],
               buffers_send := 1\<rparr>)
   \<and> sent ((tripping_session True)
              \<lparr>counter := 1, displayed := [(buffer (tripping_session True), 1)],
               buffers_send := 1\<rparr>) = []"
  by (simp add: push_simulated refresh_counter_limit_def)


lemma push_keeps:
  assumes "push chan s = Inr s'"
  shows "refresh_connection_automatically s' = refresh_connection_automatically s
         \<and> simulated s' = simulated s \<and> buffer s' = buffer s"
proof (cases "simulated s")
  case True
  with assms show ?thesis by (auto simp: push_simulated)
next
  case False
  from push_device [OF False assms] show ?thesis by simp
qed

lemma push_counts:
  assumes "push chan s = Inr s'"
  shows "counter s' =
           (if refresh_connection_automatically s \<and> counter s + 1 \<ge> refresh_counter_limit
            then 1 else counter s + 1)
         \<and> count_list (sent s') (''Draw/ResetHttpGifId'', []) =
             count_list (sent s) (''Draw/ResetHttpGifId'', []) +
             (if refresh_connection_automatically s \<and> counter s + 1 \<ge> refresh_counter_limit
                 \<and> \<not> simulated s
              then 1 else 0)"
proof (cases "simulated s")
  case True
  with assms show ?thesis by (auto simp: push_simulated)
next
  case False
  from push_device [OF False assms] False show ?thesis by (simp add: gif_frame_def)
qed

lemma pushes_below_limit:
  assumes "pushes chan n s = Inr s'"
    and "\<not> refresh_connection_automatically s \<or> counter s + int n < refresh_counter_limit"
  shows "counter s' = counter s + int n
         \<and> count_list (sent s') (''Draw/ResetHttpGifId'', []) =
             count_list (sent s) (''Draw/ResetHttpGifId'', [])"
  using assms
proof (induction n arbitrary: s)
  case 0
  then show ?case by simp
next
  case (Suc n)
  from Suc.prems(1) obtain s1 where
    s1: "push chan s = Inr s1" "pushes chan n s1 = Inr s'"
    by (auto split: sum.splits)
  have plain: "\<not> (refresh_connection_automatically s \<and> counter s + 1 \<ge> refresh_counter_limit)"
    using Suc.prems(2) by auto
  have c1: "counter s1 = counter s + 1"
    "count_list (sent s1) (''Draw/ResetHttpGifId'', []) =
       count_list (sent s) (''Draw/ResetHttpGifId'', [])"
    using push_counts [OF s1(1)] plain by auto
  have "\<not> refresh_connection_automatically s1 \<or> counter s1 + int n < refresh_counter_limit"
    using Suc.prems(2) push_keeps [OF s1(1)] c1(1) by auto
  from Suc.IH [OF s1(2) this] c1 show ?case by simp
qed

lemma pushes_return:
  assumes "simulated s \<or> (\<forall>h c. chan h c) \<and> list_all (\<lambda>v. 0 \<le> v \<and> v < 256) (buffer s)"
  shows "\<exists>s'. pushes chan n s = Inr s'"
  using assms
proof (induction n arbitrary: s)
  case 0
  show ?case by simp
next
  case (Suc n)
  from push_returns [OF Suc.prems] obtain s1 where s1: "push chan s = Inr s1" ..
  have "simulated s1 \<or> (\<forall>h c. chan h c) \<and> list_all (\<lambda>v. 0 \<le> v \<and> v < 256) (buffer s1)"
    using Suc.prems push_keeps [OF s1] by simp
  from Suc.IH [OF this] s1 show ?case by simp
qed

text \<open>
  Claim C3, amended. When automatic refresh is off, or the starting counter plus \<open>n\<close> stays
  below the limit, \<open>n\<close> pushes that return leave the counter at start + \<open>n\<close> and send no
  reset command. With automatic refresh on and start + 1 at or above the limit, the first
  of \<open>m + 1\<close> pushes sends exactly one reset command in device mode (none in simulated
  mode) and restarts the counter at 1, and the following \<open>m\<close> pushes add one each while
  1 + \<open>m\<close> stays below the limit. The pushes return in simulated mode, and in device mode
  whenever the channel executes its commands and the buffer holds bytes.
\<close>

theorem pushes_count_up_below_limit:
  "(\<forall>s'. pushes chan n s = Inr s'
        \<and> (\<not> refresh_connection_automatically s \<or> counter s + int n < refresh_counter_limit)
      \<longrightarrow> counter s' = counter s + int n
          \<and> count_list (sent s') (''Draw/ResetHttpGifId'', []) =
              count_list (sent s) (''Draw/ResetHttpGifId'', []))
   \<and> (\<forall>s'. pushes chan (Suc m) s = Inr s'
        \<and> refresh_connection_automatically s \<and> counter s + 1 \<ge> refresh_counter_limit
        \<and> 1 + int m < refresh_counter_limit
      \<longrightarrow> counter s' = 1 + int m
          \<and> count_list (sent s') (''Draw/ResetHttpGifId'', []) =
              count_list (sent s) (''Draw/ResetHttpGifId'', []) + (if simulated s then 0 else 1))
   \<and> (simulated s \<or> (\<forall>h c. chan h c) \<and> list_all (\<lambda>v. 0 \<le> v \<and> v < 256) (buffer s)
        \<longrightarrow> (\<exists>s'. pushes chan n s = Inr s'))"
proof -
  have after_reset: "counter s' = 1 + int m
      \<and> count_list (sent s') (''Draw/ResetHttpGifId'', []) =
          count_list (sent s) (''Draw/ResetHttpGifId'', []) + (if simulated s then 0 else 1)"
    if r: "pushes chan (Suc m) s = Inr s'"
      and t: "refresh_connection_automatically s \<and> counter s + 1 \<ge> refresh_counter_limit"
      and m: "1 + int m < refresh_counter_limit"
    for s'
  proof -
    from r obtain s1 where s1: "push chan s = Inr s1" "pushes chan m s1 = Inr s'"
      by (auto split: sum.splits)
    have c1: "counter s1 = 1"
      "count_list (sent s1) (''Draw/ResetHttpGifId'', []) =
         count_list (sent s) (''Draw/ResetHttpGifId'', []) + (if simulated s then 0 else 1)"
      using push_counts [OF s1(1)] t by auto
    have "\<not> refresh_connection_automatically s1 \<or> counter s1 + int m < refresh_counter_limit"
      using m c1(1) by simp
    from pushes_below_limit [OF s1(2) this] c1 show ?thesis by simp
  qed
  show ?thesis
  proof (intro conjI)
    show "\<forall>s'. pushes chan n s = Inr s'
        \<and> (\<not> refresh_connection_automatically s \<or> counter s + int n < refresh_counter_limit)
      \<longrightarrow> counter s' = counter s + int n
          \<and> count_list (sent s') (''Draw/ResetHttpGifId'', []) =
              count_list (sent s) (''Draw/ResetHttpGifId'', [])"
      using pushes_below_limit by blast
    show "\<forall>s'. pushes chan (Suc m) s = Inr s'
        \<and> refresh_connection_automatically s \<and> counter s + 1 \<ge> refresh_counter_limit
        \<and> 1 + int m < refresh_counter_limit
      \<longrightarrow> counter s' = 1 + int m
          \<and> count_list (sent s') (''Draw/ResetHttpGifId'', []) =
              count_list (sent s) (''Draw/ResetHttpGifId'', []) + (if simulated s then 0 else 1)"
      using after_reset by blast
    show "simulated s \<or> (\<forall>h c. chan h c) \<and> list_all (\<lambda>v. 0 \<le> v \<and> v < 256) (buffer s)
        \<longrightarrow> (\<exists>s'. pushes chan n s = Inr s')"
      using pushes_return by blast
  qed
qed

theorem pushes_count_up_below_limit_witness:
  "(\<exists>s'. pushes reliable_channel 5 (new_session 16 True False (0, 0, 0)) = Inr s'
       \<and> counter s' = 6 \<and> count_list (sent s') (''Draw/ResetHttpGifId'', []) = 0)
   \<and> (\<exists>s'. pushes reliable_channel 4 (tripping_session False) = Inr s'
       \<and> counter s' = 4 \<and> count_list (sent s') (''Draw/ResetHttpGifId'', []) = 1)"
proof -
  let ?s = "new_session 16 True False (0, 0, 0)"
  have b: "list_all (\<lambda>v. 0 \<le> v \<and> v < 256) (buffer ?s)"
    using new_session_ok [of 16 True False "(0, 0, 0)"] by (simp add: session_ok_def)
  from pushes_count_up_below_limit [of reliable_channel 5 ?s 0] b
  obtain s' where s': "pushes reliable_channel 5 ?s = Inr s'"
    by (auto simp: reliable_channel_def)
  with pushes_count_up_below_limit [of reliable_channel 5 ?s 0]
  have one: "counter s' = 6 \<and> count_list (sent s') (''Draw/ResetHttpGifId'', []) = 0"
    by (simp add: refresh_counter_limit_def)
  from pushes_count_up_below_limit [of reliable_channel 4 "tripping_session False" 3]
    tripping_session_bytes [of False]
  obtain s'' where s'': "pushes reliable_channel 4 (tripping_session False) = Inr s''"
    by (auto simp: reliable_channel_def)
  with pushes_count_up_below_limit [of reliable_channel 4 "tripping_session False" 3]
  have two: "counter s'' = 4 \<and> count_list (sent s'') (''Draw/ResetHttpGifId'', []) = 1"
    by (simp add: refresh_counter_limit_def eval_nat_numeral)
  from s' one s'' two show ?thesis by blast
qed

text \<open>
  Claim C3 as stated fails at start 31 and one push: 31 is below the limit, yet the push
  sends a reset command and leaves the counter at 1, not at 32.
\<close>

theorem pushes_from_31_resets:
  "counter (tripping_session False) < refresh_counter_limit
   \<and> pushes reliable_channel 1 (tripping_session False) =
       Inr ((tripping_session False)
              \<lparr>counter := 1,
               sent := [(''Draw/ResetHttpGifId'', []),
                        gif_frame 16 1 (buffer (tripping_session False))],
               buffers_send := 1\<rparr>)
   \<and> counter ((tripping_session False)
              \<lparr>counter := 1,
               sent := [(''Draw/ResetHttpGifId'', []),
                        gif_frame 16 1 (buffer (tripping_session False))],
               buffers_send := 1\<rparr>) \<noteq> counter (tripping_session False) + 1"
proof -
  from push_returns [of "tripping_session False" reliable_channel] tripping_session_bytes [of False]
  obtain s' where s': "push reliable_channel (tripping_session False) = Inr s'"
    by (auto simp: reliable_channel_def)
  from push_device [OF _ s'] have "s' = (tripping_session False)
              \<lparr>counter := 1,
               sent := [(''Draw/ResetHttpGifId'', []),
                        gif_frame 16 1 (buffer (tripping_session False))],
               buffers_send := 1\<rparr>"
    by (simp add: refresh_counter_limit_def)
  with s' show ?thesis by (simp add: refresh_counter_limit_def)
qed

text \<open>
  Claim C4 (the code departs from it). In simulated mode \<^verbatim>\<open>set_custom_page\<close> hands
  \<^verbatim>\<open>Channel/SetCustomPageIndex\<close> to the device channel all the same, so the command is sent
  when the channel executes it and the failure is raised when it does not, and
  \<^verbatim>\<open>set_custom_channel\<close> inherits both. The sibling operations (brightness, channel, clock
  and face, screen on and off, visualizer, scrolling text) return at once and leave the
  session as it was.
\<close>

theorem set_custom_page_sends_in_simulated_mode:
  "set_custom_page chan index (s\<lparr>simulated := True\<rparr>) =
     (if chan (sent s) (''Channel/SetCustomPageIndex'', [(''custom_page_index'', PyInt index)])
      then Inr (s\<lparr>simulated := True,
                  sent := sent s @
                    [(''Channel/SetCustomPageIndex'', [(''custom_page_index'', PyInt index)])]\<rparr>)
      else Inl TransportFailure)
   \<and> set_custom_channel reliable_channel index (s\<lparr>simulated := True\<rparr>) =
       Inr (s\<lparr>simulated := True,
              sent := sent s @
                [(''Channel/SetCustomPageIndex'', [(''custom_page_index'', PyInt index)])]\<rparr>)
   \<and> set_custom_channel failing_channel index (s\<lparr>simulated := True\<rparr>) = Inl TransportFailure
   \<and> set_brightness chan brightness (s\<lparr>simulated := True\<rparr>) = Inr (s\<lparr>simulated := True\<rparr>)
   \<and> set_channel chan channel_index (s\<lparr>simulated := True\<rparr>) = Inr (s\<lparr>simulated := True\<rparr>)
   \<and> set_clock chan clock_id (s\<lparr>simulated := True\<rparr>) = Inr (s\<lparr>simulated := True\<rparr>)
   \<and> set_face chan clock_id (s\<lparr>simulated := True\<rparr>) = Inr (s\<lparr>simulated := True\<rparr>)
   \<and> set_screen chan on (s\<lparr>simulated := True\<rparr>) = Inr (s\<lparr>simulated := True\<rparr>)
   \<and> set_screen_on chan (s\<lparr>simulated := True\<rparr>) = Inr (s\<lparr>simulated := True\<rparr>)
   \<and> set_screen_off chan (s\<lparr>simulated := True\<rparr>) = Inr (s\<lparr>simulated := True\<rparr>)
   \<and> set_visualizer chan equalizer_position (s\<lparr>simulated := True\<rparr>) = Inr (s\<lparr>simulated := True\<rparr>)
   \<and> send_text chan text_string xy color identifier font width movement_speed direction
        (s\<lparr>simulated := True\<rparr>) = Inr (s\<lparr>simulated := True\<rparr>)"
  by (simp add: set_custom_page_def set_custom_channel_def send_command_def set_brightness_def
      set_channel_def set_clock_def set_face_def set_screen_def set_screen_on_def
      set_screen_off_def set_visualizer_def send_text_def reliable_channel_def
      failing_channel_def)

end
